theory Spec2Isabelle
  imports Main "HOL-Library.Word"
begin

unbundle bit_operations_syntax

section \<open>Configuration and data model\<close>

text \<open>
  The allocator of \<^verbatim>\<open>main.c\<close> keeps block headers inside one static byte pool and links
  them through raw pointers. C leaves the widths of \<^verbatim>\<open>size_t\<close> and of pointers, and with
  them the layout of \<^verbatim>\<open>block_header_t\<close>, to the ABI. The embedding therefore takes the
  pointer width as a type parameter \<open>'w\<close>: \<open>'w = 32\<close> is an ILP32 build, \<open>'w = 64\<close> an LP64 (or
  LLP64) build. \<^verbatim>\<open>size_t\<close> and pointers are \<open>'w word\<close>; the null pointer is the word 0.
\<close>

definition POOL_SIZE :: "'w::len word" where
  "POOL_SIZE = 1024 * 64"

definition ALIGNMENT :: "'w::len word" where
  "ALIGNMENT = 8"

definition MAGIC_COOKIE :: "32 word" where
  "MAGIC_COOKIE = 0xDEADBEEF"

definition NULL :: "'w::len word" where
  "NULL = 0"

record (overloaded) 'w block_header =
  magic :: "32 word"
  size_f :: "'w word"
  free :: "8 word"
  next_f :: "'w word"
  prev :: "'w word"
  checksum :: "32 word"

text \<open>
  The object representation of a header under natural alignment, with \<open>p\<close> the number of
  bytes of a pointer: \<open>magic\<close> at offset 0, \<open>size\<close> at \<open>p\<close>, \<open>free\<close> at \<open>2p\<close>, \<open>next\<close> at \<open>3p\<close>,
  \<open>prev\<close> at \<open>4p\<close>, \<open>checksum\<close> at \<open>5p\<close>, and the struct padded to a multiple of \<open>p\<close>.
  Words are laid out least significant byte first; the byte sum below does not depend on
  that order.

  Padding bytes are read as zero. The allocator never writes a padding byte and the pool has
  static storage, so zero is what the code reads wherever the pool bytes under the padding
  of a header were never written before; that is the case for every header of the concrete
  runs below. Where a split places a new header over bytes that a field of an absorbed
  header, or a client through its payload pointer, has written before, the code adds those
  old bytes into the checksum it stores and likewise into the one it recomputes: the number
  stored in \<open>checksum\<close> then differs from the one computed here, while stored and
  recomputed checksum agree or disagree as they do here for as long as those bytes stay as
  they are.
\<close>

definition word_bytes :: "'a::len word \<Rightarrow> 8 word list" where
  "word_bytes w = map (\<lambda>i. ucast (drop_bit (8 * i) w)) [0 ..< LENGTH('a) div 8]"

definition padding :: "nat \<Rightarrow> 8 word list" where
  "padding n = replicate n 0"

definition object_bytes :: "'w::len block_header \<Rightarrow> 8 word list" where
  "object_bytes h =
     (let p = LENGTH('w) div 8 in
        word_bytes (magic h) @ padding (p - 4) @
        word_bytes (size_f h) @
        [free h] @ padding (p - 1) @
        word_bytes (next_f h) @
        word_bytes (prev h) @
        word_bytes (checksum h) @ padding (p - 4))"

text \<open>
  \<^verbatim>\<open>sizeof(block_header_t)\<close> is the length of that representation, six pointer-sized
  slots: 24 bytes on ILP32, 48 bytes on LP64.
\<close>

definition sizeof_block_header :: "'w::len word" where
  "sizeof_block_header = of_nat (6 * (LENGTH('w) div 8))"

definition HEADER_SIZE :: "'w::len word" where
  "HEADER_SIZE = (sizeof_block_header + ALIGNMENT - 1) AND NOT (ALIGNMENT - 1)"

text \<open>
  The heap maps an address to the header object stored there. The pool is zero-initialised,
  so an address at which no header was ever written reads as the all-zero header. Headers
  at different addresses are separate objects. The headers on the block list lie apart from
  one another (\<open>wf_apart\<close> below), so for them this is the pool. A header that a merge has
  absorbed is no longer on the list; here it stays as the merge left it, whereas in the pool
  a later split may write a new header over a part of its bytes. The model does not follow
  that, nor what a caller writes into a payload. The fields \<open>size\<close> and \<open>next\<close> of the
  struct are \<open>size_f\<close> and \<open>next_f\<close> here.
\<close>

type_synonym 'w heap = "'w word \<Rightarrow> 'w block_header"

record (overloaded) 'w allocator =
  heap :: "'w heap"
  memory_pool :: "'w word"
  free_list_head :: "'w word"
  total_allocated :: "'w word"
  total_free :: "'w word"
  allocation_count :: int
  fragmentation_score :: int

definition zero_header :: "'w::len block_header" where
  "zero_header = \<lparr>magic = 0, size_f = 0, free = 0, next_f = 0, prev = 0, checksum = 0\<rparr>"

text \<open>The static initialisers of the globals, with the pool placed at address \<open>base\<close>.\<close>

definition startup :: "'w::len word \<Rightarrow> 'w allocator" where
  "startup base =
     \<lparr>heap = (\<lambda>_. zero_header), memory_pool = base, free_list_head = NULL,
      total_allocated = 0, total_free = POOL_SIZE, allocation_count = 0,
      fragmentation_score = 0\<rparr>"

text \<open>A write through a header pointer: \<^verbatim>\<open>p->field = v\<close> is \<open>store m p (\<lambda>b. b\<lparr>field := v\<rparr>)\<close>.\<close>

definition store :: "'w heap \<Rightarrow> 'w word \<Rightarrow> ('w block_header \<Rightarrow> 'w block_header) \<Rightarrow> 'w heap" where
  "store m p f = m(p := f (m p))"

section \<open>Utility functions\<close>

text \<open>
  \<^verbatim>\<open>calculate_checksum\<close> adds up the first \<^verbatim>\<open>sizeof(block_header_t) - sizeof(uint32_t)\<close>
  bytes of the header into a \<^verbatim>\<open>uint32_t\<close>.
\<close>

definition calculate_checksum :: "'w::len block_header \<Rightarrow> 32 word" where
  "calculate_checksum header =
     foldl (\<lambda>sum b. sum + ucast b) 0
       (take (unat (sizeof_block_header :: 'w word) - 4) (object_bytes header))"

definition verify_header :: "'w::len block_header \<Rightarrow> bool" where
  "verify_header header =
     (if magic header \<noteq> MAGIC_COOKIE then False
      else if checksum header \<noteq> calculate_checksum header then False
      else True)"

text \<open>\<^verbatim>\<open>p->checksum = calculate_checksum(p)\<close>.\<close>

definition reseal :: "'w::len block_header \<Rightarrow> 'w block_header" where
  "reseal b = b\<lparr>checksum := calculate_checksum b\<rparr>"

section \<open>Initialisation\<close>

definition init_allocator :: "'w::len allocator \<Rightarrow> 'w allocator" where
  "init_allocator s =
     (let first_block = memory_pool s;
          m1 = store (heap s) first_block (\<lambda>b. b\<lparr>magic := MAGIC_COOKIE\<rparr>);
          m2 = store m1 first_block (\<lambda>b. b\<lparr>size_f := POOL_SIZE - HEADER_SIZE\<rparr>);
          m3 = store m2 first_block (\<lambda>b. b\<lparr>free := 1\<rparr>);
          m4 = store m3 first_block (\<lambda>b. b\<lparr>next_f := NULL\<rparr>);
          m5 = store m4 first_block (\<lambda>b. b\<lparr>prev := NULL\<rparr>);
          m6 = store m5 first_block reseal
      in s\<lparr>heap := m6, free_list_head := first_block,
            total_free := size_f (m6 first_block)\<rparr>)"

section \<open>Allocation\<close>

datatype 'p search = Corrupt | No_fit | Fit 'p

text \<open>
  The search loop of \<^verbatim>\<open>my_malloc\<close>. It follows \<open>next\<close> pointers until it meets the null
  pointer, a header that fails \<open>verify_header\<close>, or a fitting free block; on a cyclic list it
  does not return, which is the value \<open>None\<close>.
\<close>

partial_function (option) find_fit :: "'w::len heap \<Rightarrow> 'w word \<Rightarrow> 'w word \<Rightarrow> 'w word search option" where
  "find_fit m aligned_size current =
     (if current = NULL then Some No_fit
      else if \<not> verify_header (m current) then Some Corrupt
      else if free (m current) \<noteq> 0 \<and> aligned_size \<le> size_f (m current) then Some (Fit current)
      else find_fit m aligned_size (next_f (m current)))"

declare find_fit.simps [code]

definition align_up :: "'w::len word \<Rightarrow> 'w word" where
  "align_up sz = (sz + ALIGNMENT - 1) AND NOT (ALIGNMENT - 1)"

definition split_block :: "'w::len heap \<Rightarrow> 'w word \<Rightarrow> 'w word \<Rightarrow> 'w word \<Rightarrow> 'w heap" where
  "split_block m best_fit aligned_size remaining_size =
     (let new_block = best_fit + HEADER_SIZE + aligned_size;
          m1 = store m new_block (\<lambda>b. b\<lparr>magic := MAGIC_COOKIE\<rparr>);
          m2 = store m1 new_block (\<lambda>b. b\<lparr>size_f := remaining_size - HEADER_SIZE\<rparr>);
          m3 = store m2 new_block (\<lambda>b. b\<lparr>free := 1\<rparr>);
          m4 = store m3 new_block (\<lambda>b. b\<lparr>next_f := next_f (m3 best_fit)\<rparr>);
          m5 = store m4 new_block (\<lambda>b. b\<lparr>prev := best_fit\<rparr>);
          m6 = store m5 new_block reseal;
          m7 = (if next_f (m6 best_fit) \<noteq> NULL
                then store m6 (next_f (m6 best_fit)) (\<lambda>b. b\<lparr>prev := new_block\<rparr>)
                else m6)
      in store m7 best_fit (\<lambda>b. b\<lparr>next_f := new_block\<rparr>))"

definition take_block :: "'w::len allocator \<Rightarrow> 'w word \<Rightarrow> 'w word \<Rightarrow> 'w word \<times> 'w allocator" where
  "take_block s best_fit aligned_size =
     (let remaining_size = size_f (heap s best_fit) - aligned_size;
          m1 = (if HEADER_SIZE + ALIGNMENT \<le> remaining_size
                then split_block (heap s) best_fit aligned_size remaining_size
                else heap s);
          m2 = store m1 best_fit (\<lambda>b. b\<lparr>free := 0\<rparr>);
          m3 = store m2 best_fit (\<lambda>b. b\<lparr>size_f := aligned_size\<rparr>);
          m4 = store m3 best_fit reseal
      in (best_fit + HEADER_SIZE,
          s\<lparr>heap := m4,
            total_allocated := total_allocated s + aligned_size,
            total_free := total_free s - aligned_size,
            allocation_count := allocation_count s + 1\<rparr>))"

definition my_malloc :: "'w::len allocator \<Rightarrow> 'w word \<Rightarrow> ('w word \<times> 'w allocator) option" where
  "my_malloc s sz =
     (if sz = 0 then Some (NULL, s)
      else
        let aligned_size = align_up sz in
        case find_fit (heap s) aligned_size (free_list_head s) of
          None \<Rightarrow> None
        | Some Corrupt \<Rightarrow> Some (NULL, s)
        | Some No_fit \<Rightarrow> Some (NULL, s)
        | Some (Fit best_fit) \<Rightarrow> Some (take_block s best_fit aligned_size))"

section \<open>Deallocation\<close>

definition coalesce_next :: "'w::len heap \<Rightarrow> 'w word \<Rightarrow> 'w heap" where
  "coalesce_next m header =
     (if next_f (m header) \<noteq> NULL \<and> free (m (next_f (m header))) \<noteq> 0 then
        let nxt = next_f (m header) in
        if verify_header (m nxt) then
          let m1 = store m header (\<lambda>b. b\<lparr>size_f := size_f b + (HEADER_SIZE + size_f (m nxt))\<rparr>);
              m2 = store m1 header (\<lambda>b. b\<lparr>next_f := next_f (m1 nxt)\<rparr>);
              m3 = (if next_f (m2 nxt) \<noteq> NULL
                    then store m2 (next_f (m2 nxt)) (\<lambda>b. b\<lparr>prev := header\<rparr>)
                    else m2)
          in store m3 header reseal
        else m
      else m)"

definition coalesce_prev :: "'w::len heap \<Rightarrow> 'w word \<Rightarrow> 'w heap" where
  "coalesce_prev m header =
     (if prev (m header) \<noteq> NULL \<and> free (m (prev (m header))) \<noteq> 0 then
        let prv = prev (m header) in
        if verify_header (m prv) then
          let m1 = store m prv (\<lambda>b. b\<lparr>size_f := size_f b + (HEADER_SIZE + size_f (m header))\<rparr>);
              m2 = store m1 prv (\<lambda>b. b\<lparr>next_f := next_f (m1 header)\<rparr>);
              m3 = (if next_f (m2 header) \<noteq> NULL
                    then store m2 (next_f (m2 header)) (\<lambda>b. b\<lparr>prev := prv\<rparr>)
                    else m2)
          in store m3 prv reseal
        else m
      else m)"

definition my_free :: "'w::len allocator \<Rightarrow> 'w word \<Rightarrow> 'w allocator" where
  "my_free s ptr =
     (if ptr = NULL then s
      else
        let header = ptr - HEADER_SIZE in
        if \<not> verify_header (heap s header) then s
        else if free (heap s header) \<noteq> 0 then s
        else
          let m1 = store (heap s) header (\<lambda>b. b\<lparr>free := 1\<rparr>);
              m2 = store m1 header reseal;
              m3 = coalesce_next m2 header;
              m4 = coalesce_prev m3 header
          in s\<lparr>heap := m4,
                total_allocated := total_allocated s - size_f (m2 header),
                total_free := total_free s + size_f (m2 header),
                allocation_count := allocation_count s - 1\<rparr>)"

section \<open>Fragmentation analysis\<close>

text \<open>
  The loop of \<^verbatim>\<open>calculate_fragmentation\<close>, with its three accumulators. The count is a C
  \<^verbatim>\<open>int\<close> that is incremented once per block; it is modelled as an unbounded integer.
\<close>

partial_function (option) frag_walk ::
  "'w::len heap \<Rightarrow> 'w word \<Rightarrow> int \<Rightarrow> 'w word \<Rightarrow> 'w word \<Rightarrow> (int \<times> 'w word \<times> 'w word) option" where
  "frag_walk m current free_block_count largest_free_block total_free_space =
     (if current = NULL then Some (free_block_count, largest_free_block, total_free_space)
      else if verify_header (m current) \<and> free (m current) \<noteq> 0 then
        frag_walk m (next_f (m current)) (free_block_count + 1)
          (if largest_free_block < size_f (m current) then size_f (m current)
           else largest_free_block)
          (total_free_space + size_f (m current))
      else frag_walk m (next_f (m current)) free_block_count largest_free_block total_free_space)"

declare frag_walk.simps [code]

text \<open>
  The score is computed in \<^verbatim>\<open>size_t\<close> arithmetic and then converted to \<^verbatim>\<open>int\<close>
  (32 bits, two's complement).
\<close>

definition score_of :: "int \<Rightarrow> 'w::len word \<Rightarrow> 'w word \<Rightarrow> int" where
  "score_of free_block_count largest_free_block total_free_space =
     (if 1 < free_block_count \<and> 0 < total_free_space
      then sint (ucast (100 - largest_free_block * 100 div total_free_space :: 'w word) :: 32 word)
      else 0)"

definition calculate_fragmentation :: "'w::len allocator \<Rightarrow> 'w allocator option" where
  "calculate_fragmentation s =
     (case frag_walk (heap s) (free_list_head s) 0 0 0 of
        None \<Rightarrow> None
      | Some (k, l, f) \<Rightarrow> Some (s\<lparr>fragmentation_score := score_of k l f\<rparr>))"

section \<open>Call sequences and the block list\<close>

text \<open>
  A finite sequence of public calls, run from a given state. \<open>Allocate n\<close> is
  \<^verbatim>\<open>my_malloc(n)\<close>, whose returned pointer the caller keeps; \<open>Release p\<close> is
  \<^verbatim>\<open>my_free(p)\<close>.
\<close>

datatype 'p call = Allocate 'p | Release 'p

fun run :: "'w::len allocator \<Rightarrow> 'w word call list \<Rightarrow> 'w allocator option" where
  "run s [] = Some s"
| "run s (Allocate n # cs) = (case my_malloc s n of None \<Rightarrow> None | Some (p, s') \<Rightarrow> run s' cs)"
| "run s (Release p # cs) = run (my_free s p) cs"

text \<open>
  \<open>path m p as q\<close>: following \<open>next\<close> from \<open>p\<close> visits exactly the blocks \<open>as\<close> and arrives
  at \<open>q\<close>. \<open>chain m p as\<close>: the list that starts at \<open>p\<close> and ends at the null pointer
  consists of the blocks \<open>as\<close>.
\<close>

fun path :: "'w::len heap \<Rightarrow> 'w word \<Rightarrow> 'w word list \<Rightarrow> 'w word \<Rightarrow> bool" where
  "path m p [] q = (p = q)"
| "path m p (a # as) q = (p = a \<and> a \<noteq> NULL \<and> path m (next_f (m a)) as q)"

definition chain :: "'w::len heap \<Rightarrow> 'w word \<Rightarrow> 'w word list \<Rightarrow> bool" where
  "chain m p as = path m p as NULL"

text \<open>The bytes a block occupies: its header and its payload.\<close>

definition block_span :: "'w::len heap \<Rightarrow> 'w word \<Rightarrow> nat" where
  "block_span m a = unat (HEADER_SIZE :: 'w word) + unat (size_f (m a))"

text \<open>\<open>tiles m lo as hi\<close>: the blocks \<open>as\<close> fill the addresses from \<open>lo\<close> to \<open>hi\<close> without gaps.\<close>

fun tiles :: "'w::len heap \<Rightarrow> nat \<Rightarrow> 'w word list \<Rightarrow> nat \<Rightarrow> bool" where
  "tiles m lo [] hi = (lo = hi)"
| "tiles m lo (a # as) hi = (unat a = lo \<and> tiles m (lo + block_span m a) as hi)"

definition coverage :: "'w::len allocator \<Rightarrow> 'w word list \<Rightarrow> bool" where
  "coverage s as =
     (sum_list (map (block_span (heap s)) as) = unat (POOL_SIZE :: 'w word) \<and>
      tiles (heap s) (unat (memory_pool s)) as (unat (memory_pool s) + unat (POOL_SIZE :: 'w word)))"

text \<open>The two halves of the accounting identity, over the block list \<open>as\<close>.\<close>

definition allocated_bytes :: "'w::len heap \<Rightarrow> 'w word list \<Rightarrow> nat" where
  "allocated_bytes m as = sum_list (map (\<lambda>a. unat (size_f (m a))) (filter (\<lambda>a. free (m a) = 0) as))"

definition accounting :: "'w::len allocator \<Rightarrow> 'w word list \<Rightarrow> bool" where
  "accounting s as =
     (unat (total_allocated s) + unat (total_free s) + unat (HEADER_SIZE :: 'w word) * length as
        = unat (POOL_SIZE :: 'w word) \<and>
      unat (total_allocated s) = allocated_bytes (heap s) as)"

definition integrity :: "'w::len allocator \<Rightarrow> 'w word list \<Rightarrow> bool" where
  "integrity s as = list_all (\<lambda>a. verify_header (heap s a)) as"

text \<open>
  The three figures of the fragmentation metric over a list of blocks: the number of free
  blocks, the largest free size and the sum of the free sizes, in the arithmetic of the code.
\<close>

fun tally ::
  "'w::len heap \<Rightarrow> 'w word list \<Rightarrow> int \<times> 'w word \<times> 'w word \<Rightarrow> int \<times> 'w word \<times> 'w word" where
  "tally m [] acc = acc"
| "tally m (a # as) (k, l, f) =
     tally m as (if free (m a) \<noteq> 0 then (k + 1, max l (size_f (m a)), f + size_f (m a))
                 else (k, l, f))"

text \<open>The sum of the bytes of a word, as \<^verbatim>\<open>calculate_checksum\<close> accumulates them.\<close>

definition byte_sum :: "'a::len word \<Rightarrow> 32 word" where
  "byte_sum w = foldl (\<lambda>sum b. sum + ucast b) 0 (word_bytes w)"

text \<open>
  The pool is an object of the program: it does not start at the null pointer and it does
  not run past the end of the address space.
\<close>

definition valid_pool :: "'w::len word \<Rightarrow> bool" where
  "valid_pool base = (base \<noteq> NULL \<and> unat base + unat (POOL_SIZE :: 'w word) \<le> 2 ^ LENGTH('w))"

text \<open>
  The figures of the fragmentation metric in plain numbers: the sizes of the blocks that
  \<open>calculate_fragmentation\<close> counts (free, and passing \<open>verify_header\<close>), their number \<open>k\<close>,
  their sum \<open>F\<close>, the largest of them \<open>L\<close>, and the score \<open>100 - \<lfloor>100 L / F\<rfloor>\<close>.
\<close>

definition free_sizes :: "'w::len heap \<Rightarrow> 'w word list \<Rightarrow> nat list" where
  "free_sizes m as =
     map (\<lambda>a. unat (size_f (m a))) (filter (\<lambda>a. verify_header (m a) \<and> free (m a) \<noteq> 0) as)"

definition fragmentation_of :: "nat list \<Rightarrow> int" where
  "fragmentation_of sizes =
     (let k = length sizes; F = sum_list sizes; L = foldr max sizes 0
      in if k \<le> 1 \<or> F = 0 then 0 else 100 - int (100 * L div F))"

section \<open>The shape of the block list\<close>

text \<open>
  \<open>wf_from m p c as lim\<close>: from \<open>c\<close> on, the list consists of the blocks \<open>as\<close>; each block's
  \<open>prev\<close> is its predecessor (\<open>p\<close> for the first); each block ends at or before the start
  of its successor, the last one at or before \<open>lim\<close>.
\<close>

fun wf_from :: "'w::len heap \<Rightarrow> 'w word \<Rightarrow> 'w word \<Rightarrow> 'w word list \<Rightarrow> nat \<Rightarrow> bool" where
  "wf_from m p c [] lim = (c = NULL)"
| "wf_from m p c (a # as) lim =
     (c = a \<and> a \<noteq> NULL \<and> prev (m a) = p \<and>
      unat a + block_span m a \<le> (if next_f (m a) = NULL then lim else unat (next_f (m a))) \<and>
      wf_from m a (next_f (m a)) as lim)"

fun insert_after :: "'a \<Rightarrow> 'a \<Rightarrow> 'a list \<Rightarrow> 'a list" where
  "insert_after b x [] = []"
| "insert_after b x (a # as) = (if a = b then a # x # as else a # insert_after b x as)"

text \<open>The bytes a block contributes to \<open>allocated_bytes\<close>.\<close>

definition live_bytes :: "'w::len heap \<Rightarrow> 'w word \<Rightarrow> nat" where
  "live_bytes m a = (if free (m a) = 0 then unat (size_f (m a)) else 0)"

text \<open>
  The invariant of the allocator, for the block list \<open>as\<close>: the list starts at the pool base
  and is laid out inside the pool; a header that is not on the list is marked free or has no
  magic tag (so \<open>my_free\<close> leaves it alone); \<open>total_allocated\<close> is the sum of the allocated
  sizes; and the two counters add up to \<open>P - H\<close>.
\<close>

definition well_formed :: "'w::len allocator \<Rightarrow> 'w word list \<Rightarrow> bool" where
  "well_formed s as =
     (valid_pool (memory_pool s) \<and> free_list_head s = memory_pool s \<and>
      wf_from (heap s) NULL (memory_pool s) as
        (unat (memory_pool s) + unat (POOL_SIZE :: 'w word)) \<and>
      (\<forall>a. a \<notin> set as \<longrightarrow> free (heap s a) \<noteq> 0 \<or> magic (heap s a) \<noteq> MAGIC_COOKIE) \<and>
      unat (total_allocated s) = allocated_bytes (heap s) as \<and>
      total_allocated s + total_free s = POOL_SIZE - HEADER_SIZE)"

text \<open>
  The two merges of \<open>my_free\<close> are one operation on two neighbours: block \<open>a\<close> takes over
  the bytes and the successor of the block \<open>b\<close> that follows it.
\<close>

definition absorb :: "'w::len heap \<Rightarrow> 'w word \<Rightarrow> 'w word \<Rightarrow> 'w heap" where
  "absorb m a b =
     (let m1 = store m a (\<lambda>h. h\<lparr>size_f := size_f h + (HEADER_SIZE + size_f (m b))\<rparr>);
          m2 = store m1 a (\<lambda>h. h\<lparr>next_f := next_f (m1 b)\<rparr>);
          m3 = (if next_f (m2 b) \<noteq> NULL
                then store m2 (next_f (m2 b)) (\<lambda>h. h\<lparr>prev := a\<rparr>)
                else m2)
      in store m3 a reseal)"

section \<open>Scenarios on an ILP32 build\<close>

text \<open>
  The concrete runs below are on an ILP32 build (\<open>HEADER_SIZE = 24\<close>) whose pool the linker
  placed at address \<open>0x100000\<close>. Each state is written out and proved to be the one the code
  computes.
\<close>

definition fresh :: "32 allocator" where
  "fresh = init_allocator (startup 0x100000)"

definition tight :: "32 allocator" where
  "tight =
     \<lparr>heap = (\<lambda>_. zero_header)
        (0x100000 := \<lparr>magic = 0xDEADBEEF, size_f = 65504, free = 0, next_f = 0, prev = 0,
                       checksum = 1303\<rparr>),
      memory_pool = 0x100000, free_list_head = 0x100000, total_allocated = 65504,
      total_free = 8, allocation_count = 1, fragmentation_score = 0\<rparr>"

definition wrapped :: "32 allocator" where
  "wrapped =
     \<lparr>heap = (\<lambda>_. zero_header)
        (0x100018 := \<lparr>magic = 0xDEADBEEF, size_f = 65488, free = 1, next_f = 0,
                       prev = 0x100000, checksum = 1304\<rparr>,
         0x100000 := \<lparr>magic = 0xDEADBEEF, size_f = 0, free = 0, next_f = 0x100018, prev = 0,
                       checksum = 864\<rparr>),
      memory_pool = 0x100000, free_list_head = 0x100000, total_allocated = 0,
      total_free = 65512, allocation_count = 1, fragmentation_score = 0\<rparr>"

definition demo1 :: "32 allocator" where
  "demo1 =
     \<lparr>heap = (\<lambda>_. zero_header)
        (0x100098 := \<lparr>magic = 0xDEADBEEF, size_f = 65360, free = 1, next_f = 0,
                       prev = 0x100000, checksum = 1176\<rparr>,
         0x100000 := \<lparr>magic = 0xDEADBEEF, size_f = 128, free = 0, next_f = 0x100098, prev = 0,
                       checksum = 1120\<rparr>),
      memory_pool = 0x100000, free_list_head = 0x100000, total_allocated = 128,
      total_free = 65384, allocation_count = 1, fragmentation_score = 0\<rparr>"

definition demo3 :: "32 allocator" where
  "demo3 =
     \<lparr>heap = (\<lambda>_. zero_header)
        (0x100000 := \<lparr>magic = 0xDEADBEEF, size_f = 128, free = 0, next_f = 0x100098, prev = 0,
                       checksum = 1120\<rparr>,
         0x100098 := \<lparr>magic = 0xDEADBEEF, size_f = 256, free = 0, next_f = 0x1001B0,
                       prev = 0x100000, checksum = 1034\<rparr>,
         0x100208 := \<lparr>magic = 0xDEADBEEF, size_f = 64992, free = 1, next_f = 0,
                       prev = 0x1001B0, checksum = 1495\<rparr>,
         0x1001B0 := \<lparr>magic = 0xDEADBEEF, size_f = 64, free = 0, next_f = 0x100208,
                       prev = 0x100098, checksum = 1082\<rparr>),
      memory_pool = 0x100000, free_list_head = 0x100000, total_allocated = 448,
      total_free = 65064, allocation_count = 3, fragmentation_score = 0\<rparr>"

definition demo4 :: "32 allocator" where
  "demo4 =
     \<lparr>heap = (\<lambda>_. zero_header)
        (0x100000 := \<lparr>magic = 0xDEADBEEF, size_f = 128, free = 0, next_f = 0x100098, prev = 0,
                       checksum = 1120\<rparr>,
         0x100208 := \<lparr>magic = 0xDEADBEEF, size_f = 64992, free = 1, next_f = 0,
                       prev = 0x1001B0, checksum = 1495\<rparr>,
         0x1001B0 := \<lparr>magic = 0xDEADBEEF, size_f = 64, free = 0, next_f = 0x100208,
                       prev = 0x100098, checksum = 1082\<rparr>,
         0x100098 := \<lparr>magic = 0xDEADBEEF, size_f = 256, free = 1, next_f = 0x1001B0,
                       prev = 0x100000, checksum = 1035\<rparr>),
      memory_pool = 0x100000, free_list_head = 0x100000, total_allocated = 192,
      total_free = 65320, allocation_count = 2, fragmentation_score = 0\<rparr>"

definition demo5 :: "32 allocator" where
  "demo5 =
     \<lparr>heap = (\<lambda>_. zero_header)
        (0x100208 := \<lparr>magic = 0xDEADBEEF, size_f = 64992, free = 1, next_f = 0,
                       prev = 0x1001B0, checksum = 1495\<rparr>,
         0x100098 := \<lparr>magic = 0xDEADBEEF, size_f = 256, free = 1, next_f = 0x1001B0,
                       prev = 0x100000, checksum = 1035\<rparr>,
         0x1001B0 := \<lparr>magic = 0xDEADBEEF, size_f = 64, free = 0, next_f = 0x100208,
                       prev = 0x100000, checksum = 1082\<rparr>,
         0x100000 := \<lparr>magic = 0xDEADBEEF, size_f = 408, free = 1, next_f = 0x1001B0, prev = 0,
                       checksum = 1171\<rparr>),
      memory_pool = 0x100000, free_list_head = 0x100000, total_allocated = 64,
      total_free = 65448, allocation_count = 1, fragmentation_score = 0\<rparr>"

definition holes :: "32 allocator" where
  "holes =
     \<lparr>heap = (\<lambda>_. zero_header)
        (0x100000 := \<lparr>magic = 0xDEADBEEF, size_f = 128, free = 0, next_f = 0x100098, prev = 0,
                       checksum = 1120\<rparr>,
         0x1001B0 := \<lparr>magic = 0xDEADBEEF, size_f = 64, free = 0, next_f = 0x100208,
                       prev = 0x100098, checksum = 1082\<rparr>,
         0x100280 := \<lparr>magic = 0xDEADBEEF, size_f = 64872, free = 1, next_f = 0,
                       prev = 0x100260, checksum = 1296\<rparr>,
         0x100260 := \<lparr>magic = 0xDEADBEEF, size_f = 8, free = 0, next_f = 0x100280,
                       prev = 0x100208, checksum = 1004\<rparr>,
         0x100098 := \<lparr>magic = 0xDEADBEEF, size_f = 256, free = 1, next_f = 0x1001B0,
                       prev = 0x100000, checksum = 1035\<rparr>,
         0x100208 := \<lparr>magic = 0xDEADBEEF, size_f = 64, free = 1, next_f = 0x100260,
                       prev = 0x1001B0, checksum = 1196\<rparr>),
      memory_pool = 0x100000, free_list_head = 0x100000, total_allocated = 200,
      total_free = 65312, allocation_count = 3, fragmentation_score = 0\<rparr>"

text \<open>The state \<open>demo4\<close> after something outside the allocator has overwritten the magic
  tag of the free block at \<open>0x100098\<close>.\<close>

definition smashed :: "32 allocator" where
  "smashed = demo4\<lparr>heap := (heap demo4)(0x100098 := (heap demo4 0x100098)\<lparr>magic := 0\<rparr>)\<rparr>"

text \<open>The same for the free block at \<open>0x100208\<close>, and for both free blocks.\<close>

definition smashed_last :: "32 allocator" where
  "smashed_last = demo4\<lparr>heap := (heap demo4)(0x100208 := (heap demo4 0x100208)\<lparr>magic := 0\<rparr>)\<rparr>"

definition smashed_both :: "32 allocator" where
  "smashed_both =
     smashed\<lparr>heap := (heap smashed)(0x100208 := (heap smashed 0x100208)\<lparr>magic := 0\<rparr>)\<rparr>"

section \<open>Evaluation lemmas\<close>

lemmas config_defs =
  HEADER_SIZE_def sizeof_block_header_def ALIGNMENT_def POOL_SIZE_def NULL_def MAGIC_COOKIE_def

lemma padding_simps:
  "padding 0 = []" "padding 3 = [0, 0, 0]" "padding 4 = [0, 0, 0, 0]"
  "padding 7 = [0, 0, 0, 0, 0, 0, 0]"
  by (simp_all add: padding_def eval_nat_numeral)

lemma HEADER_SIZE_32: "(HEADER_SIZE :: 32 word) = 24"
  by (simp add: config_defs)

lemma HEADER_SIZE_64: "(HEADER_SIZE :: 64 word) = 48"
  by (simp add: config_defs)

text \<open>
  On ILP32 the struct has 24 bytes and no trailing padding; the loop stops after byte 19,
  just before the checksum field at offset 20.
\<close>

lemma calculate_checksum_32:
  "calculate_checksum (h :: 32 block_header) =
     byte_sum (magic h) + byte_sum (size_f h) + ucast (free h) + byte_sum (next_f h) +
     byte_sum (prev h)"
  by (simp add: calculate_checksum_def object_bytes_def sizeof_block_header_def padding_simps
      byte_sum_def word_bytes_def upt_rec)

text \<open>
  On LP64 the struct has 48 bytes, the checksum field sits at offset 40 and is followed by
  four bytes of padding; the loop runs over bytes 0 to 43 and so over the checksum field.
\<close>

lemma calculate_checksum_64:
  "calculate_checksum (h :: 64 block_header) =
     byte_sum (magic h) + byte_sum (size_f h) + ucast (free h) + byte_sum (next_f h) +
     byte_sum (prev h) + byte_sum (checksum h)"
  by (simp add: calculate_checksum_def object_bytes_def sizeof_block_header_def padding_simps
      byte_sum_def word_bytes_def upt_rec)

lemma sizeof_is_length_32: "length (object_bytes (h :: 32 block_header)) = unat (sizeof_block_header :: 32 word)"
  by (simp add: object_bytes_def word_bytes_def padding_def sizeof_block_header_def)

lemma sizeof_is_length_64: "length (object_bytes (h :: 64 block_header)) = unat (sizeof_block_header :: 64 word)"
  by (simp add: object_bytes_def word_bytes_def padding_def sizeof_block_header_def)

text \<open>
  So on LP64 the header that \<open>init_allocator\<close> seals does not verify, and the allocator
  serves no request at all. The concrete runs and the invariants below are therefore those
  of an ILP32 build, where a sealed header verifies and the allocator does allocate.
\<close>

lemma lp64_head_fails:
  "checksum (heap (init_allocator (startup b)) (b :: 64 word)) = 1288 \<and>
   calculate_checksum (heap (init_allocator (startup b)) (b :: 64 word)) = 1301 \<and>
   \<not> verify_header (heap (init_allocator (startup b)) (b :: 64 word))"
  by (simp add: calculate_checksum_64 byte_sum_def word_bytes_def upt_rec init_allocator_def
      startup_def store_def reseal_def zero_header_def verify_header_def config_defs Let_def
      cong: let_weak_cong)

lemma lp64_serves_nothing:
  "my_malloc (init_allocator (startup (b :: 64 word))) n = Some (NULL, init_allocator (startup b))"
proof -
  have "free_list_head (init_allocator (startup b)) = b"
    by (simp add: init_allocator_def startup_def Let_def)
  moreover have "find_fit (heap (init_allocator (startup b))) (align_up n) b = Some No_fit \<or>
        find_fit (heap (init_allocator (startup b))) (align_up n) b = Some Corrupt"
    using lp64_head_fails [of b] by (subst find_fit.simps, subst find_fit.simps) simp
  ultimately show ?thesis
    by (cases "n = 0") (auto simp: my_malloc_def Let_def)
qed

text \<open>Every call sequence leaves an LP64 allocator in its initial state.\<close>

lemma lp64_free_inert:
  "my_free (init_allocator (startup (b :: 64 word))) p = init_allocator (startup b)"
proof -
  have "\<not> verify_header (heap (init_allocator (startup b)) a)" for a
  proof (cases "a = b")
    case True
    then show ?thesis using lp64_head_fails [of b] by simp
  next
    case False
    then have "heap (init_allocator (startup b)) a = zero_header"
      by (simp add: init_allocator_def startup_def store_def Let_def)
    then show ?thesis
      by (simp add: verify_header_def zero_header_def MAGIC_COOKIE_def)
  qed
  then show ?thesis by (simp add: my_free_def Let_def)
qed

lemma lp64_inert:
  "run (init_allocator (startup (b :: 64 word))) cs = Some (init_allocator (startup b))"
proof (induction cs)
  case Nil
  then show ?case by simp
next
  case (Cons c cs)
  then show ?case
    by (cases c) (simp_all add: lp64_serves_nothing lp64_free_inert)
qed

text \<open>On ILP32 the checksum does not cover its own field, and a sealed header verifies.\<close>

lemma reseal_verifies_32:
  "magic b = MAGIC_COOKIE \<Longrightarrow> verify_header (reseal (b :: 32 block_header))"
  by (simp add: verify_header_def reseal_def calculate_checksum_32)

lemma checksum_ignores_itself_32:
  "calculate_checksum (h\<lparr>checksum := c\<rparr> :: 32 block_header) = calculate_checksum h"
  by (simp add: calculate_checksum_32)

lemmas eval_defs =
  config_defs calculate_checksum_32 byte_sum_def word_bytes_def upt_rec reseal_def
  verify_header_def store_def zero_header_def init_allocator_def startup_def my_malloc_def
  take_block_def split_block_def align_up_def my_free_def coalesce_next_def coalesce_prev_def
  find_fit.simps Let_def

lemma fresh_eq:
  "fresh =
     \<lparr>heap = (\<lambda>_. zero_header)
        (0x100000 := \<lparr>magic = 0xDEADBEEF, size_f = 65512, free = 1, next_f = 0, prev = 0,
                       checksum = 1312\<rparr>),
      memory_pool = 0x100000, free_list_head = 0x100000, total_allocated = 0,
      total_free = 65512, allocation_count = 0, fragmentation_score = 0\<rparr>"
  by (simp add: fresh_def eval_defs cong: let_weak_cong)

lemma malloc_tight: "my_malloc fresh 65504 = Some (0x100018, tight)"
  by (simp add: fresh_eq tight_def eval_defs cong: let_weak_cong)

lemma align_up_max: "align_up (0xFFFFFFFF :: 32 word) = 0"
  by (simp add: align_up_def ALIGNMENT_def)

lemma malloc_wrapped: "my_malloc fresh 0xFFFFFFFF = Some (0x100018, wrapped)"
  by (simp add: fresh_eq wrapped_def align_up_max my_malloc_def take_block_def split_block_def
      config_defs calculate_checksum_32 byte_sum_def word_bytes_def upt_rec reseal_def
      verify_header_def store_def zero_header_def find_fit.simps Let_def fun_upd_twist
      cong: let_weak_cong)

lemma malloc_demo1: "my_malloc fresh 128 = Some (0x100018, demo1)"
  by (simp add: fresh_eq demo1_def eval_defs cong: let_weak_cong)

lemma run_demo3: "run fresh [Allocate 128, Allocate 256, Allocate 64] = Some demo3"
  by (simp add: fresh_eq demo3_def eval_defs cong: let_weak_cong)

lemma free_demo4: "my_free demo3 0x1000B0 = demo4"
  by (simp add: demo3_def demo4_def eval_defs cong: let_weak_cong)

lemma free_demo5: "my_free demo4 0x100018 = demo5"
  by (simp add: demo4_def demo5_def eval_defs cong: let_weak_cong)

lemma run_append:
  "run s cs = Some t \<Longrightarrow> run s (cs @ ds) = run t ds"
proof (induction s cs rule: run.induct)
  case (2 s n cs)
  then show ?case by (auto split: option.splits)
qed simp_all

lemmas observe_defs =
  chain_def NULL_def block_span_def HEADER_SIZE_32 zero_header_def allocated_bytes_def
  POOL_SIZE_def verify_header_def MAGIC_COOKIE_def calculate_checksum_32 byte_sum_def
  word_bytes_def upt_rec

section \<open>Claims settled by running the code\<close>

text \<open>
  C1 (coverage). The spec wants the blocks to tile the pool after every call: the spans
  \<open>H + size\<close> of the blocks on the list add up to \<open>P\<close>. On a fresh ILP32 allocator the
  single call \<^verbatim>\<open>my_malloc(65504)\<close> finds the head block of 65512 bytes, leaves a remainder
  of 8 bytes, too small to split off, and still overwrites the block size with 65504. The
  list then holds one block whose span is 65528, not 65536: eight bytes of the pool belong
  to no block.
\<close>

theorem no_split_loses_coverage:
  "coverage fresh [0x100000] \<and>
   run fresh [Allocate 65504] = Some tight \<and>
   chain (heap tight) (free_list_head tight) [0x100000] \<and>
   sum_list (map (block_span (heap tight)) [0x100000]) = 65528 \<and>
   unat (POOL_SIZE :: 32 word) = 65536 \<and>
   \<not> coverage tight [0x100000]"
  by (simp add: malloc_tight) (simp add: fresh_eq tight_def coverage_def observe_defs)

text \<open>
  C2 (no-split waste retention). The spec says that a block chosen with a remainder below
  \<open>H + A\<close> keeps its size. In the same run the remainder is \<open>65512 - 65504 = 8 < 32\<close>, no
  successor block is created, and the size stored in the header drops from 65512 to 65504:
  the assignment \<^verbatim>\<open>best_fit->size = aligned_size\<close> is outside the split branch.
\<close>

theorem no_split_shrinks_block:
  "size_f (heap fresh 0x100000) = 65512 \<and>
   size_f (heap fresh 0x100000) - align_up 65504 = 8 \<and>
   (8 :: 32 word) < HEADER_SIZE + ALIGNMENT \<and>
   my_malloc fresh 65504 = Some (0x100018, tight) \<and>
   next_f (heap tight 0x100000) = NULL \<and>
   size_f (heap tight 0x100000) = 65504"
  by (simp add: malloc_tight) (simp add: fresh_eq tight_def align_up_def config_defs)

text \<open>
  C3 (integrity). The spec wants every block to verify after every call, neighbours whose
  \<open>prev\<close> link was rewritten included. The run is the one of \<^verbatim>\<open>demo_basic\<close> in the
  source: three allocations, then \<^verbatim>\<open>my_free(p2)\<close> and \<^verbatim>\<open>my_free(p1)\<close>. All blocks
  verify until the second free, which merges the first two blocks and rewrites the \<open>prev\<close>
  link of the third block at \<open>0x1001B0\<close> without recomputing its checksum. That block no
  longer verifies, and the closing \<^verbatim>\<open>my_free(p3)\<close> of the demo is refused as corruption.
\<close>

theorem demo_leaves_stale_checksum:
  "run fresh [Allocate 128, Allocate 256, Allocate 64, Release 0x1000B0] = Some demo4 \<and>
   chain (heap demo4) (free_list_head demo4) [0x100000, 0x100098, 0x1001B0, 0x100208] \<and>
   integrity demo4 [0x100000, 0x100098, 0x1001B0, 0x100208] \<and>
   my_free demo4 0x100018 = demo5 \<and>
   chain (heap demo5) (free_list_head demo5) [0x100000, 0x1001B0, 0x100208] \<and>
   \<not> verify_header (heap demo5 0x1001B0) \<and>
   \<not> integrity demo5 [0x100000, 0x1001B0, 0x100208] \<and>
   my_free demo5 0x1001C8 = demo5"
proof -
  have "run fresh [Allocate 128, Allocate 256, Allocate 64, Release 0x1000B0] = Some demo4"
    using run_append [OF run_demo3, of "[Release 0x1000B0]"] by (simp add: free_demo4)
  moreover have "my_free demo5 0x1001C8 = demo5"
    by (simp add: demo5_def eval_defs cong: let_weak_cong)
  moreover have "chain (heap demo4) (free_list_head demo4) [0x100000, 0x100098, 0x1001B0, 0x100208]"
    "integrity demo4 [0x100000, 0x100098, 0x1001B0, 0x100208]"
    by (simp_all add: demo4_def integrity_def observe_defs)
  moreover have "chain (heap demo5) (free_list_head demo5) [0x100000, 0x1001B0, 0x100208]"
    "\<not> verify_header (heap demo5 0x1001B0)"
    "\<not> integrity demo5 [0x100000, 0x1001B0, 0x100208]"
    by (simp_all add: demo5_def integrity_def observe_defs)
  ultimately show ?thesis
    by (simp add: free_demo5)
qed

text \<open>
  C7 (checksum definition). The spec wants the checksum to run over exactly the header bytes
  before the checksum field and over no byte of that field. The loop bound is
  \<^verbatim>\<open>sizeof(block_header_t) - sizeof(uint32_t)\<close>, which is the offset of the checksum field
  only when nothing follows it. On LP64 the struct ends in four bytes of padding, the loop
  covers offsets 0 to 43 and with them the checksum field at 40 to 43: the result changes
  with the stored checksum, and the header that \<open>init_allocator\<close> has just sealed does not
  pass \<open>verify_header\<close>.
\<close>

theorem lp64_checksum_covers_itself:
  "calculate_checksum (h\<lparr>checksum := 1\<rparr> :: 64 block_header) =
     calculate_checksum (h\<lparr>checksum := 0\<rparr>) + 1 \<and>
   checksum (heap (init_allocator (startup b)) (b :: 64 word)) = 1288 \<and>
   calculate_checksum (heap (init_allocator (startup b)) (b :: 64 word)) = 1301 \<and>
   \<not> verify_header (heap (init_allocator (startup b)) (b :: 64 word))"
proof -
  have "calculate_checksum (h\<lparr>checksum := 1\<rparr> :: 64 block_header) =
          calculate_checksum (h\<lparr>checksum := 0\<rparr>) + 1"
    by (simp add: calculate_checksum_64 byte_sum_def word_bytes_def upt_rec)
  with lp64_head_fails [of b] show ?thesis by blast
qed

text \<open>
  C8 (oversize request). The spec wants every request above \<open>P - H\<close> to fail, also when
  rounding the size up wraps around. On ILP32 the request \<open>0xFFFFFFFF\<close> rounds up to 0, the
  fresh head block passes the test \<open>size \<ge> 0\<close>, and the call returns the non-null pointer
  \<open>0x100018\<close> to a block of size 0, having split the pool.
\<close>

theorem wrapped_request_is_served:
  "POOL_SIZE - HEADER_SIZE < (0xFFFFFFFF :: 32 word) \<and>
   align_up (0xFFFFFFFF :: 32 word) = 0 \<and>
   my_malloc fresh 0xFFFFFFFF = Some (0x100018, wrapped) \<and>
   (0x100018 :: 32 word) \<noteq> NULL \<and>
   wrapped \<noteq> fresh \<and>
   free (heap wrapped 0x100000) = 0 \<and>
   size_f (heap wrapped 0x100000) = 0"
  by (simp add: malloc_wrapped align_up_max) (simp add: fresh_eq wrapped_def config_defs)

section \<open>The walks along the block list\<close>

lemma run_holes: "run demo3 [Allocate 64, Allocate 8, Release 0x1000B0, Release 0x100220] = Some holes"
  by (simp add: demo3_def holes_def eval_defs cong: let_weak_cong)

lemma seven_mask: "(7 :: 'w::len word) = mask 3"
  by (simp add: mask_eq_exp_minus_1)

lemma and_not_7: "(x :: 'w::len word) AND NOT 7 = push_bit 3 (drop_bit 3 x)"
  unfolding seven_mask by (rule bit_eqI) (auto simp: bit_simps)

lemma align_up_eq: "align_up (n :: 'w::len word) = push_bit 3 (drop_bit 3 (n + 7))"
proof -
  have "align_up n = (n + 7) AND NOT 7"
    by (simp add: align_up_def ALIGNMENT_def add.commute)
  then show ?thesis
    by (simp only: and_not_7)
qed

lemma align_up_unat:
  fixes n :: "'w::len word"
  assumes "unat n + 7 < 2 ^ LENGTH('w)"
  shows "unat (align_up n) = (unat n + 7) div 8 * 8"
proof -
  have "(7 :: nat) < 2 ^ LENGTH('w)"
    using assms by simp
  then have "unat (7 :: 'w word) = 7"
    by (simp add: take_bit_nat_eq_self)
  then have u: "unat (n + 7) = unat n + 7"
    using assms by (simp add: unat_add_lem [THEN iffD1])
  have "unat (n + 7) div 8 * 8 < 2 ^ LENGTH('w)"
    using unsigned_less [of "n + 7", where 'a = nat]
    by (meson div_times_less_eq_dividend le_less_trans)
  then have "unat (push_bit 3 (drop_bit 3 (n + 7))) = unat (n + 7) div 8 * 8"
    by (simp only: unsigned_push_bit_eq unat_drop_bit_eq)
      (simp add: push_bit_eq_mult drop_bit_eq_div take_bit_nat_eq_self)
  then show ?thesis
    by (simp only: align_up_eq u)
qed

lemma find_fit_path:
  assumes "path m c pre b"
    and "\<forall>a\<in>set pre. verify_header (m a) \<and> \<not> (free (m a) \<noteq> 0 \<and> n \<le> size_f (m a))"
  shows "find_fit m n c = find_fit m n b"
  using assms
proof (induction pre arbitrary: c)
  case Nil
  then show ?case by simp
next
  case (Cons a pre)
  then have "find_fit m n c = find_fit m n (next_f (m a))"
    by (subst find_fit.simps) auto
  with Cons show ?case by simp
qed

lemma frag_walk_chain:
  assumes "path m c as NULL"
  shows "frag_walk m c k l f = Some (tally m (filter (\<lambda>a. verify_header (m a)) as) (k, l, f))"
  using assms
proof (induction as arbitrary: c k l f)
  case Nil
  then show ?case by (subst frag_walk.simps) simp
next
  case (Cons a as)
  then have c: "c = a" "a \<noteq> NULL" "path m (next_f (m a)) as NULL" by auto
  show ?case
    unfolding c(1)
    by (subst frag_walk.simps) (auto simp add: c Cons.IH max_def)
qed

lemma calculate_fragmentation_chain:
  assumes "path (heap s) (free_list_head s) as NULL"
  shows "calculate_fragmentation s =
           Some (case tally (heap s) (filter (\<lambda>a. verify_header (heap s a)) as) (0, 0, 0) of
                   (k, l, f) \<Rightarrow> s\<lparr>fragmentation_score := score_of k l f\<rparr>)"
  using assms
  by (simp add: calculate_fragmentation_def frag_walk_chain split: prod.splits)

lemma take_block_fst: "fst (take_block s b n) = b + HEADER_SIZE"
  by (simp add: take_block_def Let_def)

lemma take_block_free: "free (heap (snd (take_block s b n)) b) = 0"
  by (simp add: take_block_def Let_def store_def reseal_def)

lemma smashed_eq:
  "smashed =
     \<lparr>heap = (\<lambda>_. zero_header)
        (0x100000 := \<lparr>magic = 0xDEADBEEF, size_f = 128, free = 0, next_f = 0x100098, prev = 0,
                       checksum = 1120\<rparr>,
         0x100208 := \<lparr>magic = 0xDEADBEEF, size_f = 64992, free = 1, next_f = 0,
                       prev = 0x1001B0, checksum = 1495\<rparr>,
         0x1001B0 := \<lparr>magic = 0xDEADBEEF, size_f = 64, free = 0, next_f = 0x100208,
                       prev = 0x100098, checksum = 1082\<rparr>,
         0x100098 := \<lparr>magic = 0, size_f = 256, free = 1, next_f = 0x1001B0,
                       prev = 0x100000, checksum = 1035\<rparr>),
      memory_pool = 0x100000, free_list_head = 0x100000, total_allocated = 192,
      total_free = 65320, allocation_count = 2, fragmentation_score = 0\<rparr>"
  by (simp add: smashed_def demo4_def)

lemma coalesce_next_skip: "\<not> verify_header (m (next_f (m h))) \<Longrightarrow> coalesce_next m h = m"
  by (simp add: coalesce_next_def Let_def)

lemma coalesce_prev_skip: "\<not> verify_header (m (prev (m h))) \<Longrightarrow> coalesce_prev m h = m"
  by (simp add: coalesce_prev_def Let_def)

text \<open>Coalescing writes sizes, links and checksums; it never writes a \<open>free\<close> flag.\<close>

lemma coalesce_next_free: "free (coalesce_next m h x) = free (m x)"
  by (simp add: coalesce_next_def Let_def store_def reseal_def)

lemma coalesce_prev_free: "free (coalesce_prev m h x) = free (m x)"
  by (simp add: coalesce_prev_def Let_def store_def reseal_def)

lemma smashed_last_eq:
  "smashed_last =
     \<lparr>heap = (\<lambda>_. zero_header)
        (0x100000 := \<lparr>magic = 0xDEADBEEF, size_f = 128, free = 0, next_f = 0x100098, prev = 0,
                       checksum = 1120\<rparr>,
         0x1001B0 := \<lparr>magic = 0xDEADBEEF, size_f = 64, free = 0, next_f = 0x100208,
                       prev = 0x100098, checksum = 1082\<rparr>,
         0x100098 := \<lparr>magic = 0xDEADBEEF, size_f = 256, free = 1, next_f = 0x1001B0,
                       prev = 0x100000, checksum = 1035\<rparr>,
         0x100208 := \<lparr>magic = 0, size_f = 64992, free = 1, next_f = 0,
                       prev = 0x1001B0, checksum = 1495\<rparr>),
      memory_pool = 0x100000, free_list_head = 0x100000, total_allocated = 192,
      total_free = 65320, allocation_count = 2, fragmentation_score = 0\<rparr>"
  by (simp add: smashed_last_def demo4_def fun_upd_twist)

lemma smashed_both_eq:
  "smashed_both =
     \<lparr>heap = (\<lambda>_. zero_header)
        (0x100000 := \<lparr>magic = 0xDEADBEEF, size_f = 128, free = 0, next_f = 0x100098, prev = 0,
                       checksum = 1120\<rparr>,
         0x1001B0 := \<lparr>magic = 0xDEADBEEF, size_f = 64, free = 0, next_f = 0x100208,
                       prev = 0x100098, checksum = 1082\<rparr>,
         0x100098 := \<lparr>magic = 0, size_f = 256, free = 1, next_f = 0x1001B0,
                       prev = 0x100000, checksum = 1035\<rparr>,
         0x100208 := \<lparr>magic = 0, size_f = 64992, free = 1, next_f = 0,
                       prev = 0x1001B0, checksum = 1495\<rparr>),
      memory_pool = 0x100000, free_list_head = 0x100000, total_allocated = 192,
      total_free = 65320, allocation_count = 2, fragmentation_score = 0\<rparr>"
  by (simp add: smashed_both_def smashed_eq fun_upd_twist)

lemma run_demo5:
  "run fresh [Allocate 128, Allocate 256, Allocate 64, Release 0x1000B0, Release 0x100018] =
     Some demo5"
  using run_append [OF run_demo3, of "[Release 0x1000B0, Release 0x100018]"]
  by (simp add: free_demo4 free_demo5)

lemmas step_defs =
  HEADER_SIZE_32 NULL_def Let_def store_def reseal_def zero_header_def verify_header_def
  MAGIC_COOKIE_def calculate_checksum_32 byte_sum_def word_bytes_def upt_rec
  coalesce_next_def coalesce_prev_def

section \<open>Claims about single calls\<close>

text \<open>
  The free of \<open>p1\<close> in the state \<open>smashed\<close>: the block of \<open>p1\<close> verifies and is allocated,
  its successor at \<open>0x100098\<close> is free and fails \<open>verify_header\<close>. The call does not leave
  the state as it was: the block is marked free and the counters are updated; only the merge
  is left out.
\<close>

theorem corruption_counterexample:
  "verify_header (heap smashed 0x100000) \<and>
   free (heap smashed 0x100000) = 0 \<and>
   next_f (heap smashed 0x100000) = 0x100098 \<and>
   free (heap smashed 0x100098) = 1 \<and>
   \<not> verify_header (heap smashed 0x100098) \<and>
   my_free smashed 0x100018 \<noteq> smashed \<and>
   free (heap (my_free smashed 0x100018) 0x100000) = 1 \<and>
   total_allocated smashed = 192 \<and>
   total_allocated (my_free smashed 0x100018) = 64"
  by (simp add: smashed_eq eval_defs cong: let_weak_cong)

text \<open>
  C5 (corruption atomicity), as the code has it. A header that fails \<open>verify_header\<close> during
  the search of \<open>my_malloc\<close>, or at the address computed from the pointer given to
  \<open>my_free\<close>, makes the call return with the allocator state exactly as it was. Once
  \<open>my_free\<close> has accepted the header of its own block (the pointer is not null, the header
  verifies and is allocated), the call never leaves the state as it was: with \<open>m2\<close> the heap
  in which the block is marked free and resealed, the result is the state \<open>freed m\<close> with the
  three counters updated and the block still marked free, for a heap \<open>m\<close> that depends on
  the neighbours only through the merges. If the \<open>next\<close> neighbour fails \<open>verify_header\<close>,
  the merge with it is left out and the result is \<open>freed (coalesce_prev m2 header)\<close>: the
  merge with the \<open>prev\<close> neighbour is still attempted. If the \<open>prev\<close> neighbour fails (in the
  heap \<open>m3\<close> in which the code looks at it, after the merge with \<open>next\<close>), the result is
  \<open>freed m3\<close>: the merge with \<open>next\<close> is kept. If both fail, the result is \<open>freed m2\<close>.
\<close>

theorem corruption_outcomes:
  fixes s :: "'w::len allocator"
  shows
  "(path (heap s) (free_list_head s) pre b \<and> b \<noteq> NULL \<and>
    (\<forall>a\<in>set pre. verify_header (heap s a) \<and>
        \<not> (free (heap s a) \<noteq> 0 \<and> align_up n \<le> size_f (heap s a))) \<and>
    \<not> verify_header (heap s b) \<longrightarrow> my_malloc s n = Some (NULL, s)) \<and>
   (\<not> verify_header (heap s (p - HEADER_SIZE)) \<longrightarrow> my_free s p = s) \<and>
   (p \<noteq> NULL \<and> verify_header (heap s (p - HEADER_SIZE)) \<and>
    free (heap s (p - HEADER_SIZE)) = 0 \<longrightarrow>
    (let header = p - HEADER_SIZE;
         m2 = store (store (heap s) header (\<lambda>b. b\<lparr>free := 1\<rparr>)) header reseal;
         m3 = coalesce_next m2 header;
         freed = (\<lambda>m. s\<lparr>heap := m,
                          total_allocated := total_allocated s - size_f (heap s header),
                          total_free := total_free s + size_f (heap s header),
                          allocation_count := allocation_count s - 1\<rparr>)
     in my_free s p \<noteq> s \<and>
        free (heap (my_free s p) header) = 1 \<and>
        my_free s p = freed (coalesce_prev m3 header) \<and>
        (\<not> verify_header (m2 (next_f (m2 header))) \<longrightarrow>
           my_free s p = freed (coalesce_prev m2 header)) \<and>
        (\<not> verify_header (m3 (prev (m3 header))) \<longrightarrow>
           my_free s p = freed m3) \<and>
        (\<not> verify_header (m2 (next_f (m2 header))) \<and>
         \<not> verify_header (m2 (prev (m2 header))) \<longrightarrow>
           my_free s p = freed m2)))"
proof (intro conjI impI)
  assume a: "path (heap s) (free_list_head s) pre b \<and> b \<noteq> NULL \<and>
    (\<forall>a\<in>set pre. verify_header (heap s a) \<and>
        \<not> (free (heap s a) \<noteq> 0 \<and> align_up n \<le> size_f (heap s a))) \<and>
    \<not> verify_header (heap s b)"
  then have "find_fit (heap s) (align_up n) (free_list_head s) = find_fit (heap s) (align_up n) b"
    by (intro find_fit_path [of _ _ pre]) auto
  also have "\<dots> = Some Corrupt"
    using a by (subst find_fit.simps) simp
  finally show "my_malloc s n = Some (NULL, s)"
    by (simp add: my_malloc_def)
next
  assume "\<not> verify_header (heap s (p - HEADER_SIZE))"
  then show "my_free s p = s"
    by (simp add: my_free_def Let_def)
next
  assume g: "p \<noteq> NULL \<and> verify_header (heap s (p - HEADER_SIZE)) \<and>
    free (heap s (p - HEADER_SIZE)) = 0"
  define header where "header = p - HEADER_SIZE"
  define m2 where "m2 = store (store (heap s) header (\<lambda>b. b\<lparr>free := 1\<rparr>)) header reseal"
  define m3 where "m3 = coalesce_next m2 header"
  define freed where "freed = (\<lambda>m. s\<lparr>heap := m,
                          total_allocated := total_allocated s - size_f (heap s header),
                          total_free := total_free s + size_f (heap s header),
                          allocation_count := allocation_count s - 1\<rparr>)"
  have m2: "size_f (m2 header) = size_f (heap s header)" "free (m2 header) = 1"
    by (simp_all add: m2_def store_def reseal_def)
  have eq: "my_free s p = freed (coalesce_prev m3 header)"
    using g m2(1) by (simp add: my_free_def Let_def header_def m2_def m3_def freed_def)
  have fr: "free (heap (my_free s p) header) = 1"
    by (simp add: eq freed_def m3_def coalesce_prev_free coalesce_next_free m2)
  moreover have "free (heap s header) = 0"
    using g by (simp add: header_def)
  ultimately have ne: "my_free s p \<noteq> s"
    by auto
  have n: "my_free s p = freed (coalesce_prev m2 header)"
    if "\<not> verify_header (m2 (next_f (m2 header)))"
    using that by (simp add: eq m3_def coalesce_next_skip)
  have p: "my_free s p = freed m3" if "\<not> verify_header (m3 (prev (m3 header)))"
    using that by (simp add: eq coalesce_prev_skip)
  have b: "my_free s p = freed m2"
    if "\<not> verify_header (m2 (next_f (m2 header))) \<and> \<not> verify_header (m2 (prev (m2 header)))"
    using that by (simp add: eq m3_def coalesce_next_skip coalesce_prev_skip)
  from ne fr eq n p b
  show "let header = p - HEADER_SIZE;
         m2 = store (store (heap s) header (\<lambda>b. b\<lparr>free := 1\<rparr>)) header reseal;
         m3 = coalesce_next m2 header;
         freed = (\<lambda>m. s\<lparr>heap := m,
                          total_allocated := total_allocated s - size_f (heap s header),
                          total_free := total_free s + size_f (heap s header),
                          allocation_count := allocation_count s - 1\<rparr>)
     in my_free s p \<noteq> s \<and>
        free (heap (my_free s p) header) = 1 \<and>
        my_free s p = freed (coalesce_prev m3 header) \<and>
        (\<not> verify_header (m2 (next_f (m2 header))) \<longrightarrow>
           my_free s p = freed (coalesce_prev m2 header)) \<and>
        (\<not> verify_header (m3 (prev (m3 header))) \<longrightarrow>
           my_free s p = freed m3) \<and>
        (\<not> verify_header (m2 (next_f (m2 header))) \<and>
         \<not> verify_header (m2 (prev (m2 header))) \<longrightarrow>
           my_free s p = freed m2)"
    unfolding Let_def freed_def m3_def m2_def header_def
    by blast
qed

theorem corruption_outcomes_witness:
  "path (heap smashed) (free_list_head smashed) [0x100000] 0x100098 \<and>
   verify_header (heap smashed 0x100000) \<and> free (heap smashed 0x100000) = 0 \<and>
   \<not> verify_header (heap smashed 0x100098) \<and>
   my_malloc smashed 300 = Some (NULL, smashed) \<and>
   my_free smashed 0x1000B0 = smashed \<and>
   verify_header (heap smashed_last 0x1001B0) \<and> free (heap smashed_last 0x1001B0) = 0 \<and>
   next_f (heap smashed_last 0x1001B0) = 0x100208 \<and>
   free (heap smashed_last 0x100208) = 1 \<and> \<not> verify_header (heap smashed_last 0x100208) \<and>
   prev (heap smashed_last 0x1001B0) = 0x100098 \<and>
   free (heap smashed_last 0x100098) = 1 \<and> verify_header (heap smashed_last 0x100098) \<and>
   my_free smashed_last 0x1001C8 =
     smashed_last\<lparr>heap := (heap smashed_last)
         (0x1001B0 := \<lparr>magic = 0xDEADBEEF, size_f = 64, free = 1, next_f = 0x100208,
                        prev = 0x100098, checksum = 1083\<rparr>,
          0x100208 := \<lparr>magic = 0, size_f = 64992, free = 1, next_f = 0,
                        prev = 0x100098, checksum = 1495\<rparr>,
          0x100098 := \<lparr>magic = 0xDEADBEEF, size_f = 344, free = 1, next_f = 0x100208,
                        prev = 0x100000, checksum = 956\<rparr>),
       total_allocated := 128, total_free := 65384, allocation_count := 1\<rparr> \<and>
   verify_header (heap smashed 0x1001B0) \<and> free (heap smashed 0x1001B0) = 0 \<and>
   next_f (heap smashed 0x1001B0) = 0x100208 \<and>
   free (heap smashed 0x100208) = 1 \<and> verify_header (heap smashed 0x100208) \<and>
   prev (heap smashed 0x1001B0) = 0x100098 \<and>
   free (heap smashed 0x100098) = 1 \<and>
   my_free smashed 0x1001C8 =
     smashed\<lparr>heap := (heap smashed)
         (0x1001B0 := \<lparr>magic = 0xDEADBEEF, size_f = 65080, free = 1, next_f = 0,
                        prev = 0x100098, checksum = 1303\<rparr>),
       total_allocated := 128, total_free := 65384, allocation_count := 1\<rparr> \<and>
   verify_header (heap smashed_both 0x1001B0) \<and> free (heap smashed_both 0x1001B0) = 0 \<and>
   next_f (heap smashed_both 0x1001B0) = 0x100208 \<and>
   free (heap smashed_both 0x100208) = 1 \<and> \<not> verify_header (heap smashed_both 0x100208) \<and>
   prev (heap smashed_both 0x1001B0) = 0x100098 \<and>
   free (heap smashed_both 0x100098) = 1 \<and> \<not> verify_header (heap smashed_both 0x100098) \<and>
   my_free smashed_both 0x1001C8 =
     smashed_both\<lparr>heap := (heap smashed_both)
         (0x1001B0 := \<lparr>magic = 0xDEADBEEF, size_f = 64, free = 1, next_f = 0x100208,
                        prev = 0x100098, checksum = 1083\<rparr>),
       total_allocated := 128, total_free := 65384, allocation_count := 1\<rparr>"
proof -
  have h: "path (heap smashed) (free_list_head smashed) [0x100000] 0x100098"
    "(0x100098 :: 32 word) \<noteq> NULL"
    "verify_header (heap smashed 0x100000)" "free (heap smashed 0x100000) = 0"
    "\<not> verify_header (heap smashed 0x100098)"
    by (simp_all add: smashed_eq observe_defs)
  have 1: "my_malloc smashed 300 = Some (NULL, smashed)"
    using corruption_outcomes [of smashed "[0x100000]" "0x100098" 300 0] h by simp
  have 2: "my_free smashed 0x1000B0 = smashed"
    using corruption_outcomes [of smashed "[]" 0 0 "0x1000B0"] h by (simp add: HEADER_SIZE_32)
  have 3: "verify_header (heap smashed_last 0x1001B0) \<and> free (heap smashed_last 0x1001B0) = 0 \<and>
   next_f (heap smashed_last 0x1001B0) = 0x100208 \<and>
   free (heap smashed_last 0x100208) = 1 \<and> \<not> verify_header (heap smashed_last 0x100208) \<and>
   prev (heap smashed_last 0x1001B0) = 0x100098 \<and>
   free (heap smashed_last 0x100098) = 1 \<and> verify_header (heap smashed_last 0x100098) \<and>
   my_free smashed_last 0x1001C8 =
     smashed_last\<lparr>heap := (heap smashed_last)
         (0x1001B0 := \<lparr>magic = 0xDEADBEEF, size_f = 64, free = 1, next_f = 0x100208,
                        prev = 0x100098, checksum = 1083\<rparr>,
          0x100208 := \<lparr>magic = 0, size_f = 64992, free = 1, next_f = 0,
                        prev = 0x100098, checksum = 1495\<rparr>,
          0x100098 := \<lparr>magic = 0xDEADBEEF, size_f = 344, free = 1, next_f = 0x100208,
                        prev = 0x100000, checksum = 956\<rparr>),
       total_allocated := 128, total_free := 65384, allocation_count := 1\<rparr>"
    using corruption_outcomes [of smashed_last "[]" 0 0 "0x1001C8"]
    by (simp add: smashed_last_eq step_defs cong: let_weak_cong)
  have 4: "verify_header (heap smashed 0x1001B0) \<and> free (heap smashed 0x1001B0) = 0 \<and>
   next_f (heap smashed 0x1001B0) = 0x100208 \<and>
   free (heap smashed 0x100208) = 1 \<and> verify_header (heap smashed 0x100208) \<and>
   prev (heap smashed 0x1001B0) = 0x100098 \<and>
   free (heap smashed 0x100098) = 1 \<and>
   my_free smashed 0x1001C8 =
     smashed\<lparr>heap := (heap smashed)
         (0x1001B0 := \<lparr>magic = 0xDEADBEEF, size_f = 65080, free = 1, next_f = 0,
                        prev = 0x100098, checksum = 1303\<rparr>),
       total_allocated := 128, total_free := 65384, allocation_count := 1\<rparr>"
    using corruption_outcomes [of smashed "[]" 0 0 "0x1001C8"]
    by (simp add: smashed_eq step_defs cong: let_weak_cong)
  have 5: "verify_header (heap smashed_both 0x1001B0) \<and> free (heap smashed_both 0x1001B0) = 0 \<and>
   next_f (heap smashed_both 0x1001B0) = 0x100208 \<and>
   free (heap smashed_both 0x100208) = 1 \<and> \<not> verify_header (heap smashed_both 0x100208) \<and>
   prev (heap smashed_both 0x1001B0) = 0x100098 \<and>
   free (heap smashed_both 0x100098) = 1 \<and> \<not> verify_header (heap smashed_both 0x100098) \<and>
   my_free smashed_both 0x1001C8 =
     smashed_both\<lparr>heap := (heap smashed_both)
         (0x1001B0 := \<lparr>magic = 0xDEADBEEF, size_f = 64, free = 1, next_f = 0x100208,
                        prev = 0x100098, checksum = 1083\<rparr>),
       total_allocated := 128, total_free := 65384, allocation_count := 1\<rparr>"
    using corruption_outcomes [of smashed_both "[]" 0 0 "0x1001C8"]
    by (simp add: smashed_both_eq step_defs cong: let_weak_cong)
  from h 1 2 3 4 5 show ?thesis by blast
qed

text \<open>
  The state \<open>demo5\<close> is the one \<^verbatim>\<open>demo_basic\<close> reaches after its three allocations and
  its first two frees. A request for 500 bytes, rounded to 504, does not fit the free head
  block (408 bytes); the walk then comes to the allocated block at \<open>0x1001B0\<close>, whose
  checksum is stale, and the call returns the null pointer, although the free block at
  \<open>0x100208\<close> after it verifies and has 64992 bytes. The first free block in address order
  that is large enough is not selected.
\<close>

theorem first_fit_counterexample:
  "run fresh [Allocate 128, Allocate 256, Allocate 64, Release 0x1000B0, Release 0x100018] =
     Some demo5 \<and>
   chain (heap demo5) (free_list_head demo5) [0x100000, 0x1001B0, 0x100208] \<and>
   align_up (500 :: 32 word) = 504 \<and>
   free (heap demo5 0x100000) = 1 \<and> size_f (heap demo5 0x100000) = 408 \<and>
   verify_header (heap demo5 0x100000) \<and>
   free (heap demo5 0x1001B0) = 0 \<and> \<not> verify_header (heap demo5 0x1001B0) \<and>
   free (heap demo5 0x100208) = 1 \<and> size_f (heap demo5 0x100208) = 64992 \<and>
   verify_header (heap demo5 0x100208) \<and>
   my_malloc demo5 500 = Some (NULL, demo5)"
proof -
  have "my_malloc demo5 500 = Some (NULL, demo5)"
    by (simp add: demo5_def eval_defs cong: let_weak_cong)
  moreover have "align_up (500 :: 32 word) = 504"
    by (simp add: align_up_def ALIGNMENT_def)
  moreover have "chain (heap demo5) (free_list_head demo5) [0x100000, 0x1001B0, 0x100208]"
    "free (heap demo5 0x100000) = 1" "size_f (heap demo5 0x100000) = 408"
    "verify_header (heap demo5 0x100000)"
    "free (heap demo5 0x1001B0) = 0" "\<not> verify_header (heap demo5 0x1001B0)"
    "free (heap demo5 0x100208) = 1" "size_f (heap demo5 0x100208) = 64992"
    "verify_header (heap demo5 0x100208)"
    by (simp_all add: demo5_def observe_defs)
  ultimately show ?thesis
    using run_demo5 by simp
qed

text \<open>
  C6 (first fit), as the code has it. For a request \<open>n > 0\<close> the search starts at the head of
  the list and selects the first block, in list order, that is free and has \<open>size \<ge> n'\<close>,
  provided that block and the blocks walked before it pass \<open>verify_header\<close>; \<open>n'\<close> is the
  request rounded up to a multiple of 8 (as long as \<open>n + 7\<close> does not wrap around). If the
  blocks \<open>pre\<close> before \<open>b\<close> verify and do not fit, and \<open>b\<close> verifies and fits, then
  \<open>my_malloc\<close> takes \<open>b\<close> and returns its payload address \<open>b + H\<close>. Nothing is assumed of
  the blocks after \<open>b\<close>, so a later block that fits more tightly changes nothing. List
  order is address order in every state the allocator reaches (\<open>reachable_address_order\<close>
  below).
\<close>

theorem first_fit_selected:
  fixes s :: "'w::len allocator"
  assumes "n \<noteq> 0"
    and "path (heap s) (free_list_head s) pre b" and "b \<noteq> NULL"
    and "\<forall>a\<in>set pre. verify_header (heap s a) \<and>
           \<not> (free (heap s a) \<noteq> 0 \<and> align_up n \<le> size_f (heap s a))"
    and "verify_header (heap s b)" and "free (heap s b) \<noteq> 0"
    and "align_up n \<le> size_f (heap s b)"
  shows "find_fit (heap s) (align_up n) (free_list_head s) = Some (Fit b) \<and>
         my_malloc s n = Some (take_block s b (align_up n)) \<and>
         fst (take_block s b (align_up n)) = b + HEADER_SIZE \<and>
         free (heap (snd (take_block s b (align_up n))) b) = 0 \<and>
         (unat n + 7 < 2 ^ LENGTH('w) \<longrightarrow> unat (align_up n) = (unat n + 7) div 8 * 8)"
proof -
  have "find_fit (heap s) (align_up n) (free_list_head s) = find_fit (heap s) (align_up n) b"
    using assms(2,4) by (rule find_fit_path)
  also have "\<dots> = Some (Fit b)"
    using assms(3,5,6,7) by (subst find_fit.simps) simp
  finally have f: "find_fit (heap s) (align_up n) (free_list_head s) = Some (Fit b)" .
  then have "my_malloc s n = Some (take_block s b (align_up n))"
    using assms(1) by (simp add: my_malloc_def)
  with f show ?thesis
    by (simp add: take_block_fst take_block_free align_up_unat)
qed

theorem first_fit_selected_witness:
  "run demo3 [Allocate 64, Allocate 8, Release 0x1000B0, Release 0x100220] = Some holes \<and>
   (64 :: 32 word) \<noteq> 0 \<and>
   path (heap holes) (free_list_head holes) [0x100000] 0x100098 \<and>
   (0x100098 :: 32 word) \<noteq> NULL \<and>
   verify_header (heap holes 0x100000) \<and> free (heap holes 0x100000) = 0 \<and>
   verify_header (heap holes 0x100098) \<and> free (heap holes 0x100098) = 1 \<and>
   size_f (heap holes 0x100098) = 256 \<and>
   verify_header (heap holes 0x100208) \<and> free (heap holes 0x100208) = 1 \<and>
   size_f (heap holes 0x100208) = 64 \<and>
   align_up (64 :: 32 word) = 64 \<and>
   my_malloc holes 64 = Some (take_block holes 0x100098 64) \<and>
   fst (take_block holes 0x100098 64) = 0x1000B0"
proof -
  have a: "align_up (64 :: 32 word) = 64"
    by (simp add: align_up_def ALIGNMENT_def)
  have h: "path (heap holes) (free_list_head holes) [0x100000] 0x100098"
    "(0x100098 :: 32 word) \<noteq> NULL"
    "verify_header (heap holes 0x100000)" "free (heap holes 0x100000) = 0"
    "verify_header (heap holes 0x100098)" "free (heap holes 0x100098) = 1"
    "size_f (heap holes 0x100098) = 256"
    "verify_header (heap holes 0x100208)" "free (heap holes 0x100208) = 1"
    "size_f (heap holes 0x100208) = 64"
    by (simp_all add: holes_def observe_defs)
  from h a run_holes first_fit_selected [of 64 holes "[0x100000]" "0x100098"]
  show ?thesis
    by (simp add: HEADER_SIZE_32)
qed

text \<open>
  C10 (fragmentation walk over unverified blocks). Whenever the list from the head ends at
  the null pointer, \<open>calculate_fragmentation\<close> returns, and its figures are those of the
  blocks that pass \<open>verify_header\<close>: a block that fails is left out of the count, the sum
  and the maximum, the walk goes on through its \<open>next\<close> link to all later blocks, and of
  the allocator state only \<open>fragmentation_score\<close> is assigned.
\<close>

theorem fragmentation_skips_unverified:
  assumes "chain (heap s) (free_list_head s) as"
  shows "calculate_fragmentation s =
           Some (case tally (heap s) (filter (\<lambda>a. verify_header (heap s a)) as) (0, 0, 0) of
                   (k, l, f) \<Rightarrow> s\<lparr>fragmentation_score := score_of k l f\<rparr>)"
  using assms by (simp add: calculate_fragmentation_chain chain_def)

theorem fragmentation_skips_unverified_witness:
  "chain (heap smashed) (free_list_head smashed) [0x100000, 0x100098, 0x1001B0, 0x100208] \<and>
   \<not> verify_header (heap smashed 0x100098) \<and>
   free (heap smashed 0x100098) = 1 \<and>
   calculate_fragmentation smashed = Some (smashed\<lparr>fragmentation_score := 0\<rparr>) \<and>
   chain (heap demo4) (free_list_head demo4) [0x100000, 0x100098, 0x1001B0, 0x100208] \<and>
   calculate_fragmentation demo4 = Some (demo4\<lparr>fragmentation_score := 1\<rparr>)"
proof -
  have c: "chain (heap smashed) (free_list_head smashed) [0x100000, 0x100098, 0x1001B0, 0x100208]"
    by (simp add: smashed_eq observe_defs)
  have d: "chain (heap demo4) (free_list_head demo4) [0x100000, 0x100098, 0x1001B0, 0x100208]"
    by (simp add: demo4_def observe_defs)
  have "calculate_fragmentation smashed = Some (smashed\<lparr>fragmentation_score := 0\<rparr>)"
    using fragmentation_skips_unverified [OF c]
    by (simp add: smashed_eq observe_defs score_of_def)
  moreover have "calculate_fragmentation demo4 = Some (demo4\<lparr>fragmentation_score := 1\<rparr>)"
    using fragmentation_skips_unverified [OF d]
    by (simp add: demo4_def observe_defs score_of_def)
  moreover have "\<not> verify_header (heap smashed 0x100098)" "free (heap smashed 0x100098) = 1"
    by (simp_all add: smashed_eq observe_defs)
  ultimately show ?thesis
    using c d by simp
qed

section \<open>Layout of the block list\<close>

lemma wf_path: "wf_from m p c as lim \<Longrightarrow> path m c as NULL"
  by (induction as arbitrary: p c) auto

lemma wf_hd: "wf_from m p c as lim \<Longrightarrow> as \<noteq> [] \<Longrightarrow> hd as = c \<and> c \<noteq> NULL"
  by (cases as) auto

lemma wf_null: "wf_from m p NULL as lim \<Longrightarrow> as = []"
  by (cases as) auto

lemma wf_bounds_all:
  "wf_from m p c as lim \<Longrightarrow> \<forall>a\<in>set as. unat c \<le> unat a \<and> unat a + block_span m a \<le> lim"
proof (induction as arbitrary: p c)
  case Nil
  then show ?case by simp
next
  case (Cons x xs)
  then have w: "c = x" "x \<noteq> NULL"
    "unat x + block_span m x \<le> (if next_f (m x) = NULL then lim else unat (next_f (m x)))"
    "wf_from m x (next_f (m x)) xs lim"
    by auto
  show ?case
  proof (cases "xs = []")
    case True
    with Cons.prems w show ?thesis by auto
  next
    case False
    then have n: "next_f (m x) \<noteq> NULL" "hd xs = next_f (m x)"
      using wf_hd [OF w(4)] by auto
    have h: "\<forall>y\<in>set xs. unat (next_f (m x)) \<le> unat y \<and> unat y + block_span m y \<le> lim"
      using Cons.IH [OF w(4)] .
    have "hd xs \<in> set xs" using False by simp
    with h n w(3) have "unat x + block_span m x \<le> lim" by auto
    with h w n show ?thesis by (auto simp: block_span_def)
  qed
qed

lemma wf_bounds:
  "wf_from m p c as lim \<Longrightarrow> a \<in> set as \<Longrightarrow> unat c \<le> unat a \<and> unat a + block_span m a \<le> lim"
  using wf_bounds_all by blast

lemma wf_after:
  "wf_from m p c (x # xs) lim \<Longrightarrow> a \<in> set xs \<Longrightarrow> unat x + block_span m x \<le> unat a"
proof -
  assume w: "wf_from m p c (x # xs) lim" and a: "a \<in> set xs"
  then have "xs \<noteq> []" by auto
  with w have "next_f (m x) \<noteq> NULL" "wf_from m x (next_f (m x)) xs lim"
    using wf_hd [of m x "next_f (m x)" xs lim] by auto
  with w a wf_bounds [of m x "next_f (m x)" xs lim a] show ?thesis by auto
qed

lemma span_pos: "0 < block_span (m :: 32 heap) a"
  by (simp add: block_span_def HEADER_SIZE_32)

lemma wf_distinct: "wf_from (m :: 32 heap) p c as lim \<Longrightarrow> distinct as"
proof (induction as arbitrary: p c)
  case Nil
  then show ?case by simp
next
  case (Cons x xs)
  have "x \<notin> set xs"
  proof
    assume "x \<in> set xs"
    from wf_after [OF Cons.prems this] span_pos [of m x] show False by simp
  qed
  with Cons show ?case by auto
qed

text \<open>Blocks of the list lie apart: one that starts later starts after the end of the other.\<close>

lemma wf_apart:
  "wf_from (m :: 32 heap) p c as lim \<Longrightarrow> a \<in> set as \<Longrightarrow> b \<in> set as \<Longrightarrow> unat a < unat b
     \<Longrightarrow> unat a + block_span m a \<le> unat b"
proof (induction as arbitrary: p c)
  case Nil
  then show ?case by simp
next
  case (Cons x xs)
  then have w: "wf_from m x (next_f (m x)) xs lim" by auto
  consider "a = x" "b \<in> set xs" | "a \<in> set xs" "b = x" | "a \<in> set xs" "b \<in> set xs"
    using Cons.prems by auto
  then show ?case
  proof cases
    case 1
    then show ?thesis using wf_after [OF Cons.prems(1)] by simp
  next
    case 2
    then show ?thesis using wf_after [OF Cons.prems(1), of a] Cons.prems(4) by simp
  next
    case 3
    then show ?thesis using Cons.IH [OF w] Cons.prems(4) by simp
  qed
qed

lemma wf_total:
  "wf_from m p c as lim \<Longrightarrow> as \<noteq> [] \<Longrightarrow> unat c + sum_list (map (block_span m) as) \<le> lim"
proof (induction as arbitrary: p c)
  case Nil
  then show ?case by simp
next
  case (Cons x xs)
  then have w: "c = x" "wf_from m x (next_f (m x)) xs lim"
    "unat x + block_span m x \<le> (if next_f (m x) = NULL then lim else unat (next_f (m x)))"
    by auto
  show ?case
  proof (cases "xs = []")
    case True
    with w wf_null show ?thesis by (cases "next_f (m x) = NULL") auto
  next
    case False
    from Cons.IH [OF w(2) False] w wf_hd [OF w(2) False] show ?thesis by auto
  qed
qed

text \<open>The predecessor on the list is where \<open>prev\<close> points.\<close>

lemma wf_prev:
  "wf_from m p c as lim \<Longrightarrow> x \<in> set as \<Longrightarrow>
     (x = c \<and> prev (m x) = p) \<or> (prev (m x) \<in> set as \<and> next_f (m (prev (m x))) = x)"
proof (induction as arbitrary: p c)
  case Nil
  then show ?case by simp
next
  case (Cons a as)
  then have w: "c = a" "prev (m a) = p" "wf_from m a (next_f (m a)) as lim" by auto
  show ?case
  proof (cases "x = a")
    case True
    with w show ?thesis by simp
  next
    case False
    then have x: "x \<in> set as" using Cons.prems by simp
    from Cons.IH [OF w(3) x] show ?thesis by auto
  qed
qed

lemma wf_local:
  "wf_from m p c as lim \<Longrightarrow> a \<in> set as \<Longrightarrow>
     a \<noteq> NULL \<and>
     unat a + block_span m a \<le> (if next_f (m a) = NULL then lim else unat (next_f (m a))) \<and>
     (next_f (m a) \<noteq> NULL \<longrightarrow> next_f (m a) \<in> set as)"
proof (induction as arbitrary: p c)
  case Nil
  then show ?case by simp
next
  case (Cons x xs)
  then have w: "wf_from m x (next_f (m x)) xs lim" by auto
  show ?case
  proof (cases "a = x")
    case True
    have "next_f (m x) \<in> set xs" if "next_f (m x) \<noteq> NULL"
      using w that by (cases xs) auto
    with Cons.prems True show ?thesis by auto
  next
    case False
    with Cons.prems have "a \<in> set xs" by simp
    from Cons.IH [OF w this] show ?thesis by simp
  qed
qed

lemma wf_shrink:
  "wf_from m p c as lim \<Longrightarrow>
   \<forall>a\<in>set as. next_f (m' a) = next_f (m a) \<and> prev (m' a) = prev (m a) \<and>
      unat (size_f (m' a)) \<le> unat (size_f (m a)) \<Longrightarrow>
   wf_from m' p c as lim"
proof (induction as arbitrary: p c)
  case Nil
  then show ?case by simp
next
  case (Cons x xs)
  then have "wf_from m' x (next_f (m x)) xs lim" by auto
  with Cons.prems show ?case by (auto simp: block_span_def)
qed

lemma wf_reprev:
  fixes m :: "32 heap"
  assumes "wf_from m q c as lim"
    and "\<forall>a\<in>set as. next_f (m' a) = next_f (m a) \<and> size_f (m' a) = size_f (m a)"
    and "\<forall>a\<in>set as. a \<noteq> c \<longrightarrow> prev (m' a) = prev (m a)"
    and "c \<noteq> NULL \<longrightarrow> prev (m' c) = q'"
  shows "wf_from m' q' c as lim"
proof (cases as)
  case Nil
  with assms show ?thesis by simp
next
  case (Cons x xs)
  with assms(1) have w: "c = x" "x \<noteq> NULL" "wf_from m x (next_f (m x)) xs lim" by auto
  have "x \<notin> set xs" using wf_distinct [OF assms(1)] Cons by simp
  then have "wf_from m' x (next_f (m x)) xs lim"
    using assms(2,3) Cons w(1) by (intro wf_shrink [OF w(3)]) auto
  with assms Cons w show ?thesis by (auto simp: block_span_def)
qed

lemma wf_split:
  fixes m :: "32 heap"
  assumes "wf_from m p c as lim" and "b \<in> set as" and "x \<notin> set as" and "x \<noteq> NULL"
    and "next_f (m' b) = x" and "prev (m' b) = prev (m b)"
    and "unat b + block_span m' b \<le> unat x"
    and "next_f (m' x) = next_f (m b)" and "prev (m' x) = b"
    and "unat x + block_span m' x \<le> unat b + block_span m b"
    and "next_f (m b) \<noteq> NULL \<longrightarrow> m' (next_f (m b)) = (m (next_f (m b)))\<lparr>prev := x\<rparr>"
    and "\<forall>a. a \<noteq> b \<and> a \<noteq> x \<and> a \<noteq> next_f (m b) \<longrightarrow> m' a = m a"
  shows "wf_from m' p c (insert_after b x as) lim"
  using assms(1,2,3)
proof (induction as arbitrary: p c)
  case Nil
  then show ?case by simp
next
  case (Cons a as)
  then have w: "c = a" "a \<noteq> NULL" "prev (m a) = p"
    "unat a + block_span m a \<le> (if next_f (m a) = NULL then lim else unat (next_f (m a)))"
    "wf_from m a (next_f (m a)) as lim"
    by auto
  have d: "a \<notin> set as" using wf_distinct [OF Cons.prems(1)] by simp
  show ?case
  proof (cases "a = b")
    case True
    have tl: "m' y = (if y = next_f (m b) then (m y)\<lparr>prev := x\<rparr> else m y)" if "y \<in> set as" for y
    proof -
      have "y \<noteq> b" "y \<noteq> x" "y \<noteq> NULL"
        using that d True Cons.prems(3) wf_local [OF w(5) that] by auto
      then show ?thesis using assms(11,12) by auto
    qed
    have "wf_from m' x (next_f (m b)) as lim"
    proof (rule wf_reprev)
      show "wf_from m b (next_f (m b)) as lim" using w True by simp
      show "\<forall>y\<in>set as. next_f (m' y) = next_f (m y) \<and> size_f (m' y) = size_f (m y)"
        by (simp add: tl)
      show "\<forall>y\<in>set as. y \<noteq> next_f (m b) \<longrightarrow> prev (m' y) = prev (m y)"
        by (simp add: tl)
      show "next_f (m b) \<noteq> NULL \<longrightarrow> prev (m' (next_f (m b))) = x"
        using assms(11) by simp
    qed
    with True w assms(4-10) show ?thesis by auto
  next
    case False
    then have b: "b \<in> set as" using Cons.prems by simp
    have "unat a + block_span m a \<le> unat b"
      using wf_after [OF Cons.prems(1) b] .
    moreover have "next_f (m b) \<noteq> NULL \<longrightarrow> unat b + block_span m b \<le> unat (next_f (m b))"
      using wf_local [OF w(5) b] by auto
    ultimately have "a \<noteq> next_f (m b)"
      using span_pos [of m a] span_pos [of m b] w(2) by (cases "next_f (m b) = NULL") auto
    with False Cons.prems(3) assms(12) have e: "m' a = m a" by auto
    have "wf_from m' a (next_f (m a)) (insert_after b x as) lim"
      using Cons.IH [OF w(5) b] Cons.prems(3) by simp
    moreover have "insert_after b x as \<noteq> [] \<and> as \<noteq> []" using b by (cases as) auto
    ultimately show ?thesis using False w e by (auto simp: block_span_def)
  qed
qed

lemma wf_absorb:
  fixes m :: "32 heap"
  assumes "wf_from m p c as lim" and "a \<in> set as" and "next_f (m a) = b" and "b \<noteq> NULL"
    and "next_f (m' a) = next_f (m b)" and "prev (m' a) = prev (m a)"
    and "block_span m' a = block_span m a + block_span m b"
    and "next_f (m b) \<noteq> NULL \<longrightarrow> m' (next_f (m b)) = (m (next_f (m b)))\<lparr>prev := a\<rparr>"
    and "\<forall>y. y \<noteq> a \<and> y \<noteq> next_f (m b) \<longrightarrow> m' y = m y"
  shows "wf_from m' p c (remove1 b as) lim"
  using assms(1,2)
proof (induction as arbitrary: p c)
  case Nil
  then show ?case by simp
next
  case (Cons y ys)
  then have w: "c = y" "y \<noteq> NULL" "prev (m y) = p"
    "unat y + block_span m y \<le> (if next_f (m y) = NULL then lim else unat (next_f (m y)))"
    "wf_from m y (next_f (m y)) ys lim"
    by auto
  have d: "distinct (y # ys)" using wf_distinct [OF Cons.prems(1)] .
  show ?case
  proof (cases "y = a")
    case True
    with w(5) assms(3,4) obtain zs where z: "ys = b # zs" "wf_from m b (next_f (m b)) zs lim"
      "unat b + block_span m b \<le> (if next_f (m b) = NULL then lim else unat (next_f (m b)))"
      by (cases ys) auto
    have tl: "m' v = (if v = next_f (m b) then (m v)\<lparr>prev := a\<rparr> else m v)" if "v \<in> set zs" for v
    proof -
      have "v \<noteq> a" "v \<noteq> NULL"
        using that d True z(1) wf_local [OF z(2) that] by auto
      then show ?thesis using assms(8,9) by auto
    qed
    have "wf_from m' a (next_f (m b)) zs lim"
    proof (rule wf_reprev)
      show "wf_from m b (next_f (m b)) zs lim" by fact
      show "\<forall>y\<in>set zs. next_f (m' y) = next_f (m y) \<and> size_f (m' y) = size_f (m y)"
        by (simp add: tl)
      show "\<forall>y\<in>set zs. y \<noteq> next_f (m b) \<longrightarrow> prev (m' y) = prev (m y)"
        by (simp add: tl)
      show "next_f (m b) \<noteq> NULL \<longrightarrow> prev (m' (next_f (m b))) = a"
        using assms(8) by simp
    qed
    moreover have "a \<noteq> b" using d True z(1) by auto
    ultimately show ?thesis
      using True w z assms(3-7) by auto
  next
    case False
    then have a: "a \<in> set ys" using Cons.prems by simp
    have 1: "unat y + block_span m y \<le> unat a"
      using wf_after [OF Cons.prems(1) a] .
    have 2: "unat a + block_span m a \<le> unat b" "b \<in> set ys"
      using wf_local [OF w(5) a] assms(3,4) by auto
    have 3: "next_f (m b) \<noteq> NULL \<longrightarrow> unat b + block_span m b \<le> unat (next_f (m b))"
      using wf_local [OF w(5) 2(2)] by auto
    have "y \<noteq> b" using 1 2 span_pos [of m y] span_pos [of m a] by auto
    moreover have "y \<noteq> next_f (m b)"
      using 1 2 3 span_pos [of m y] span_pos [of m a] span_pos [of m b] w(2)
      by (cases "next_f (m b) = NULL") auto
    ultimately have e: "m' y = m y" "remove1 b (y # ys) = y # remove1 b ys"
      using False assms(9) by auto
    have "wf_from m' y (next_f (m y)) (remove1 b ys) lim"
      using Cons.IH [OF w(5) a] .
    moreover have "remove1 b ys \<noteq> [] \<and> ys \<noteq> []"
      using a 2 \<open>a \<in> set ys\<close> span_pos [of m a] by (cases ys) (auto split: if_splits)
    ultimately show ?thesis using w e by (auto simp: block_span_def)
  qed
qed

section \<open>The allocator keeps its invariant\<close>

lemma find_fit_chain:
  "path m c as NULL \<Longrightarrow>
     \<exists>r. find_fit m n c = Some r \<and>
         (\<forall>b. r = Fit b \<longrightarrow> b \<in> set as \<and> free (m b) \<noteq> 0 \<and> n \<le> size_f (m b))"
proof (induction as arbitrary: c)
  case Nil
  then show ?case by (subst find_fit.simps) simp
next
  case (Cons a as)
  then have c: "c = a" "a \<noteq> NULL" "path m (next_f (m a)) as NULL" by auto
  from Cons.IH [OF c(3)] obtain r where
    r: "find_fit m n (next_f (m a)) = Some r"
       "\<forall>b. r = Fit b \<longrightarrow> b \<in> set as \<and> free (m b) \<noteq> 0 \<and> n \<le> size_f (m b)"
    by blast
  show ?case
    unfolding c(1) by (subst find_fit.simps) (use c r in auto)
qed

lemma take_block_nosplit:
  "\<not> HEADER_SIZE + ALIGNMENT \<le> size_f (heap s b) - asz \<Longrightarrow>
     heap (snd (take_block s b asz)) =
       (heap s)(b := reseal ((heap s b)\<lparr>free := 0, size_f := asz\<rparr>))"
  by (simp add: take_block_def store_def Let_def)

lemma take_block_split:
  assumes "HEADER_SIZE + ALIGNMENT \<le> size_f (heap s b) - asz"
    and "x = b + HEADER_SIZE + asz" and "x \<noteq> b"
    and "next_f (heap s b) \<noteq> x" and "next_f (heap s b) \<noteq> b"
  shows "heap (snd (take_block s b asz)) =
     (let m = heap s; nxt = next_f (m b);
          m1 = m(x := reseal ((m x)\<lparr>magic := MAGIC_COOKIE,
                    size_f := size_f (m b) - asz - HEADER_SIZE, free := 1,
                    next_f := nxt, prev := b\<rparr>));
          m2 = (if nxt \<noteq> NULL then m1(nxt := (m nxt)\<lparr>prev := x\<rparr>) else m1)
      in m2(b := reseal ((m b)\<lparr>next_f := x, free := 0, size_f := asz\<rparr>)))"
  using assms
  by (auto simp add: take_block_def split_block_def store_def Let_def reseal_def fun_eq_iff)

lemma take_block_counters:
  "total_allocated (snd (take_block s b asz)) = total_allocated s + asz \<and>
   total_free (snd (take_block s b asz)) = total_free s - asz \<and>
   memory_pool (snd (take_block s b asz)) = memory_pool s \<and>
   free_list_head (snd (take_block s b asz)) = free_list_head s"
  by (simp add: take_block_def Let_def)

lemma allocated_bytes_alt: "allocated_bytes m as = sum_list (map (live_bytes m) as)"
  by (induction as) (simp_all add: allocated_bytes_def live_bytes_def)

lemma live_le_span: "live_bytes m a \<le> block_span m a"
  by (simp add: live_bytes_def block_span_def)

lemma allocated_le_span: "allocated_bytes m as \<le> sum_list (map (block_span m) as)"
  unfolding allocated_bytes_alt by (rule sum_list_mono) (simp add: live_le_span)

lemma sum_insert_after:
  "b \<in> set as \<Longrightarrow> sum_list (map f (insert_after b x as)) = sum_list (map f as) + (f x :: nat)"
  by (induction as) auto

lemma set_insert_after: "b \<in> set as \<Longrightarrow> set (insert_after b x as) = insert x (set as)"
  by (induction as) auto

lemma sum_change_one:
  fixes f g :: "'a \<Rightarrow> nat"
  assumes "distinct as" and "b \<in> set as" and "\<forall>a\<in>set as. a \<noteq> b \<longrightarrow> g a = f a"
  shows "sum_list (map g as) + f b = sum_list (map f as) + g b"
proof -
  have "sum_list (map g (remove1 b as)) = sum_list (map f (remove1 b as))"
    using assms by (intro arg_cong [where f = sum_list] map_cong) auto
  then show ?thesis
    using sum_list_map_remove1 [OF assms(2), of f] sum_list_map_remove1 [OF assms(2), of g]
    by simp
qed

lemma unat_32_consts:
  "unat (HEADER_SIZE :: 32 word) = 24" "unat (POOL_SIZE :: 32 word) = 65536"
  "unat (HEADER_SIZE + ALIGNMENT :: 32 word) = 32"
  by (simp_all add: config_defs)

lemma wf_pool_bound:
  fixes s :: "32 allocator"
  assumes "well_formed s as"
  shows "sum_list (map (block_span (heap s)) as) \<le> 65536 \<and> as \<noteq> [] \<and>
         unat (memory_pool s) + 65536 \<le> 2 ^ 32 \<and> memory_pool s \<noteq> 0"
proof -
  from assms have v: "valid_pool (memory_pool s)" "free_list_head s = memory_pool s"
    and w: "wf_from (heap s) NULL (memory_pool s) as (unat (memory_pool s) + 65536)"
    by (simp_all add: well_formed_def unat_32_consts)
  from v have n: "memory_pool s \<noteq> NULL" "unat (memory_pool s) + 65536 \<le> 2 ^ 32"
    by (simp_all add: valid_pool_def unat_32_consts)
  with w have "as \<noteq> []" by (cases as) auto
  with wf_total [OF w] n show ?thesis by (simp add: NULL_def)
qed

lemma take_block_wf:
  fixes s :: "32 allocator"
  assumes wf: "well_formed s as" and b: "b \<in> set as"
    and fr: "free (heap s b) \<noteq> 0" and le: "asz \<le> size_f (heap s b)"
  shows "\<exists>as'. well_formed (snd (take_block s b asz)) as'"
proof -
  define m where "m = heap s"
  define base where "base = memory_pool s"
  define lim where "lim = unat base + 65536"
  define s' where "s' = snd (take_block s b asz)"
  note defs = m_def base_def lim_def s'_def
  have w: "wf_from m NULL base as lim"
    and stale: "\<forall>a. a \<notin> set as \<longrightarrow> free (m a) \<noteq> 0 \<or> magic (m a) \<noteq> MAGIC_COOKIE"
    and ta: "unat (total_allocated s) = allocated_bytes m as"
    and tt: "total_allocated s + total_free s = POOL_SIZE - HEADER_SIZE"
    and vp: "valid_pool base" and hd: "free_list_head s = base"
    using wf by (simp_all add: well_formed_def defs unat_32_consts)
  have bound: "sum_list (map (block_span m) as) \<le> 65536" "lim \<le> 2 ^ 32" "base \<noteq> 0"
    using wf_pool_bound [OF wf] by (simp_all add: defs)
  have d: "distinct as" using wf_distinct [OF w] .
  have bb: "unat b + block_span m b \<le> lim" "b \<noteq> NULL"
    using wf_bounds [OF w b] wf_local [OF w b] by simp_all
  have span_b: "block_span m b = 24 + unat (size_f (m b))"
    by (simp add: block_span_def unat_32_consts)
  have "block_span m b \<le> sum_list (map (block_span m) as)"
    using b by (simp add: member_le_sum_list)
  with bound span_b have szb: "unat (size_f (m b)) \<le> 65536" by simp
  have usz: "unat asz \<le> unat (size_f (m b))"
    using le by (simp add: word_le_nat_alt m_def)
  have urem: "unat (size_f (m b) - asz) = unat (size_f (m b)) - unat asz"
    using le by (simp add: unat_sub m_def)
  have cnt: "total_allocated s' = total_allocated s + asz"
    "total_free s' = total_free s - asz" "memory_pool s' = base" "free_list_head s' = base"
    using take_block_counters [of s b asz] hd by (simp_all add: defs)
  have "allocated_bytes m as \<le> 65536"
    using allocated_le_span [of m as] bound by simp
  with ta usz szb have uta: "unat (total_allocated s + asz) = unat (total_allocated s) + unat asz"
    by (simp add: unat_add_lem [THEN iffD1])
  have I4: "total_allocated s' + total_free s' = POOL_SIZE - HEADER_SIZE"
    using tt by (simp add: cnt)
  have live_b: "live_bytes m b = 0" using fr by (simp add: live_bytes_def m_def)
  show ?thesis
  proof (cases "HEADER_SIZE + ALIGNMENT \<le> size_f (m b) - asz")
    case False
    then have h: "heap s' = m(b := reseal ((m b)\<lparr>free := 0, size_f := asz\<rparr>))"
      using take_block_nosplit [of s b asz] by (simp add: defs)
    have 1: "wf_from (heap s') NULL base as lim"
      using usz by (intro wf_shrink [OF w]) (simp add: h reseal_def)
    have 2: "\<forall>a. a \<notin> set as \<longrightarrow> free (heap s' a) \<noteq> 0 \<or> magic (heap s' a) \<noteq> MAGIC_COOKIE"
      using stale b by (auto simp: h)
    have "sum_list (map (live_bytes (heap s')) as) + live_bytes m b =
          sum_list (map (live_bytes m) as) + live_bytes (heap s') b"
      using d b by (intro sum_change_one) (auto simp: h live_bytes_def)
    then have 3: "allocated_bytes (heap s') as = allocated_bytes m as + unat asz"
      by (simp add: allocated_bytes_alt live_b) (simp add: h live_bytes_def reseal_def)
    have "well_formed s' as"
      using 1 2 3 I4 vp ta uta cnt by (simp add: well_formed_def unat_32_consts lim_def)
    then show ?thesis unfolding s'_def by blast
  next
    case True
    define x where "x = b + HEADER_SIZE + asz"
    have r32: "32 \<le> unat (size_f (m b)) - unat asz"
      using True urem by (simp add: word_le_nat_alt unat_32_consts)
    then have "unat b + 24 + unat asz < 2 ^ 32"
      using bb bound span_b by simp
    then have ux: "unat x = unat b + 24 + unat asz"
      by (simp add: x_def HEADER_SIZE_32 unat_add_lem [THEN iffD1])
    have urh: "unat (size_f (m b) - asz - HEADER_SIZE) = unat (size_f (m b)) - unat asz - 24"
      using True urem r32 by (simp add: unat_sub word_le_nat_alt unat_32_consts)
    have xb: "x \<noteq> b" "x \<noteq> NULL" using ux by (auto simp: NULL_def)
    have nx: "next_f (m b) \<noteq> NULL \<longrightarrow> unat b + block_span m b \<le> unat (next_f (m b))"
      using wf_local [OF w b] by auto
    have "next_f (m b) = NULL \<or> unat b + block_span m b \<le> unat (next_f (m b))"
      using nx by auto
    then have nxt: "next_f (m b) \<noteq> x" "next_f (m b) \<noteq> b"
      using ux r32 span_b xb bb by auto
    have xs: "x \<notin> set as"
    proof
      assume xin: "x \<in> set as"
      have "unat b < unat x" using ux by simp
      from wf_apart [OF w b xin this] ux r32 span_b show False by simp
    qed
    have h: "heap s' =
     (let nxt = next_f (m b);
          m1 = m(x := reseal ((m x)\<lparr>magic := MAGIC_COOKIE,
                    size_f := size_f (m b) - asz - HEADER_SIZE, free := 1,
                    next_f := nxt, prev := b\<rparr>));
          m2 = (if nxt \<noteq> NULL then m1(nxt := (m nxt)\<lparr>prev := x\<rparr>) else m1)
      in m2(b := reseal ((m b)\<lparr>next_f := x, free := 0, size_f := asz\<rparr>)))"
      using take_block_split [of s b asz x] True xb nxt
      by (simp add: defs x_def Let_def)
    have hb: "heap s' b = reseal ((m b)\<lparr>next_f := x, free := 0, size_f := asz\<rparr>)"
      by (simp add: h Let_def)
    have hx: "heap s' x = reseal ((m x)\<lparr>magic := MAGIC_COOKIE,
                    size_f := size_f (m b) - asz - HEADER_SIZE, free := 1,
                    next_f := next_f (m b), prev := b\<rparr>)"
      using xb nxt by (simp add: h Let_def)
    have hn: "next_f (m b) \<noteq> NULL \<longrightarrow> heap s' (next_f (m b)) = (m (next_f (m b)))\<lparr>prev := x\<rparr>"
      using xb nxt by (simp add: h Let_def)
    have ho: "\<forall>a. a \<noteq> b \<and> a \<noteq> x \<and> a \<noteq> next_f (m b) \<longrightarrow> heap s' a = m a"
      by (simp add: h Let_def)
    have 1: "wf_from (heap s') NULL base (insert_after b x as) lim"
    proof (rule wf_split [OF w b xs xb(2)])
      show "next_f (heap s' b) = x" "prev (heap s' b) = prev (m b)"
        by (simp_all add: hb reseal_def)
      show "unat b + block_span (heap s') b \<le> unat x"
        by (simp add: hb reseal_def block_span_def unat_32_consts ux)
      show "next_f (heap s' x) = next_f (m b)" "prev (heap s' x) = b"
        by (simp_all add: hx reseal_def)
      show "unat x + block_span (heap s') x \<le> unat b + block_span m b"
        using r32 usz by (simp add: hx reseal_def block_span_def unat_32_consts ux urh)
      show "next_f (m b) \<noteq> NULL \<longrightarrow> heap s' (next_f (m b)) = (m (next_f (m b)))\<lparr>prev := x\<rparr>"
        by (rule hn)
      show "\<forall>a. a \<noteq> b \<and> a \<noteq> x \<and> a \<noteq> next_f (m b) \<longrightarrow> heap s' a = m a"
        by (rule ho)
    qed
    have nin: "next_f (m b) \<noteq> NULL \<longrightarrow> next_f (m b) \<in> set as"
      using wf_local [OF w b] by simp
    have 2: "\<forall>a. a \<notin> set (insert_after b x as) \<longrightarrow>
               free (heap s' a) \<noteq> 0 \<or> magic (heap s' a) \<noteq> MAGIC_COOKIE"
    proof (intro allI impI)
      fix a assume "a \<notin> set (insert_after b x as)"
      then have a: "a \<noteq> x" "a \<notin> set as" by (simp_all add: set_insert_after [OF b])
      with b nin have "a \<noteq> b" "a \<noteq> next_f (m b) \<or> next_f (m b) = NULL" by auto
      then have "heap s' a = m a" using a xb by (auto simp: h Let_def)
      with stale a show "free (heap s' a) \<noteq> 0 \<or> magic (heap s' a) \<noteq> MAGIC_COOKIE" by simp
    qed
    have lv: "\<forall>a\<in>set as. a \<noteq> b \<longrightarrow> live_bytes (heap s') a = live_bytes m a"
    proof (intro ballI impI)
      fix a assume a: "a \<in> set as" "a \<noteq> b"
      then have "a \<noteq> x" "a \<noteq> NULL" using xs wf_local [OF w a(1)] by auto
      with a hn ho show "live_bytes (heap s') a = live_bytes m a"
        by (cases "a = next_f (m b)") (auto simp: live_bytes_def)
    qed
    have "sum_list (map (live_bytes (heap s')) as) + live_bytes m b =
          sum_list (map (live_bytes m) as) + live_bytes (heap s') b"
      using d b lv by (intro sum_change_one) auto
    moreover have "live_bytes (heap s') x = 0" "live_bytes (heap s') b = unat asz"
      by (simp_all add: hx hb live_bytes_def reseal_def)
    ultimately have 3: "allocated_bytes (heap s') (insert_after b x as) = allocated_bytes m as + unat asz"
      by (simp add: allocated_bytes_alt live_b sum_insert_after [OF b])
    have "well_formed s' (insert_after b x as)"
      using 1 2 3 I4 vp ta uta cnt by (simp add: well_formed_def unat_32_consts lim_def)
    then show ?thesis unfolding s'_def by blast
  qed
qed

lemma coalesce_next_absorb:
  "coalesce_next m h =
     (if next_f (m h) \<noteq> NULL \<and> free (m (next_f (m h))) \<noteq> 0 \<and> verify_header (m (next_f (m h)))
      then absorb m h (next_f (m h)) else m)"
  by (simp add: coalesce_next_def absorb_def Let_def)

lemma coalesce_prev_absorb:
  "coalesce_prev m h =
     (if prev (m h) \<noteq> NULL \<and> free (m (prev (m h))) \<noteq> 0 \<and> verify_header (m (prev (m h)))
      then absorb m (prev (m h)) h else m)"
  by (simp add: coalesce_prev_def absorb_def Let_def)

lemma absorb_heap:
  assumes "a \<noteq> b" and "next_f (m b) \<noteq> a"
  shows "absorb m a b =
     (let nn = next_f (m b);
          m1 = (if nn \<noteq> NULL then m(nn := (m nn)\<lparr>prev := a\<rparr>) else m)
      in m1(a := reseal ((m a)\<lparr>size_f := size_f (m a) + (HEADER_SIZE + size_f (m b)),
                               next_f := nn\<rparr>)))"
  using assms
  by (auto simp add: absorb_def store_def Let_def reseal_def fun_eq_iff)

lemma absorb_ok:
  fixes m :: "32 heap"
  assumes w: "wf_from m NULL base as lim" and lim: "lim \<le> 2 ^ 32"
    and stale: "\<forall>y. y \<notin> set as \<longrightarrow> free (m y) \<noteq> 0 \<or> magic (m y) \<noteq> MAGIC_COOKIE"
    and a: "a \<in> set as" and nb: "next_f (m a) = b" and b0: "b \<noteq> NULL"
    and fa: "free (m a) \<noteq> 0" and fb: "free (m b) \<noteq> 0"
  shows "wf_from (absorb m a b) NULL base (remove1 b as) lim \<and>
         (\<forall>y. y \<notin> set (remove1 b as) \<longrightarrow>
              free (absorb m a b y) \<noteq> 0 \<or> magic (absorb m a b y) \<noteq> MAGIC_COOKIE) \<and>
         allocated_bytes (absorb m a b) (remove1 b as) = allocated_bytes m as \<and>
         free (absorb m a b a) = free (m a) \<and> a \<in> set (remove1 b as)"
proof -
  define m' where "m' = absorb m a b"
  define nn where "nn = next_f (m b)"
  have d: "distinct as" using wf_distinct [OF w] .
  have la: "a \<noteq> NULL" "unat a + block_span m a \<le> unat b" "b \<in> set as"
    using wf_local [OF w a] nb b0 by auto
  have lb: "unat b + block_span m b \<le> lim"
    "nn \<noteq> NULL \<longrightarrow> unat b + block_span m b \<le> unat nn \<and> nn \<in> set as"
    using wf_local [OF w la(3)] wf_bounds [OF w la(3)] by (auto simp: nn_def)
  have ab: "a \<noteq> b" using la span_pos [of m a] by auto
  have "nn = NULL \<or> unat b + block_span m b \<le> unat nn"
    using lb by auto
  then have na: "nn \<noteq> a" "nn \<noteq> b"
    using la b0 span_pos [of m a] span_pos [of m b] by auto
  have h: "m' = (let m1 = (if nn \<noteq> NULL then m(nn := (m nn)\<lparr>prev := a\<rparr>) else m)
      in m1(a := reseal ((m a)\<lparr>size_f := size_f (m a) + (HEADER_SIZE + size_f (m b)),
                               next_f := nn\<rparr>)))"
    using absorb_heap [of a b m] ab na by (simp add: m'_def nn_def Let_def)
  have ha: "m' a = reseal ((m a)\<lparr>size_f := size_f (m a) + (HEADER_SIZE + size_f (m b)),
                               next_f := nn\<rparr>)"
    by (simp add: h Let_def)
  have hn: "nn \<noteq> NULL \<longrightarrow> m' nn = (m nn)\<lparr>prev := a\<rparr>"
    using na by (simp add: h Let_def)
  have ho: "\<forall>y. y \<noteq> a \<and> y \<noteq> nn \<longrightarrow> m' y = m y"
    by (simp add: h Let_def)
  have "0 < unat a" using la(1) by (simp add: NULL_def unat_gt_0)
  then have small: "unat (size_f (m a)) + 24 + unat (size_f (m b)) < 2 ^ 32"
    using la lb lim by (simp add: block_span_def unat_32_consts)
  then have "unat (HEADER_SIZE + size_f (m b) :: 32 word) = 24 + unat (size_f (m b))"
    by (simp add: HEADER_SIZE_32 unat_add_lem [THEN iffD1])
  with small have usum:
    "unat (size_f (m a) + (HEADER_SIZE + size_f (m b))) = unat (size_f (m a)) + 24 + unat (size_f (m b))"
    by (simp add: unat_add_lem [THEN iffD1])
  have 1: "wf_from m' NULL base (remove1 b as) lim"
  proof (rule wf_absorb [OF w a nb b0])
    show "next_f (m' a) = next_f (m b)" "prev (m' a) = prev (m a)"
      by (simp_all add: ha reseal_def nn_def)
    show "block_span m' a = block_span m a + block_span m b"
      by (simp add: ha reseal_def block_span_def unat_32_consts usum)
    show "next_f (m b) \<noteq> NULL \<longrightarrow> m' (next_f (m b)) = (m (next_f (m b)))\<lparr>prev := a\<rparr>"
      using hn by (simp add: nn_def)
    show "\<forall>y. y \<noteq> a \<and> y \<noteq> next_f (m b) \<longrightarrow> m' y = m y"
      using ho by (simp add: nn_def)
  qed
  have sr: "set (remove1 b as) = set as - {b}" using d by simp
  have 2: "\<forall>y. y \<notin> set (remove1 b as) \<longrightarrow> free (m' y) \<noteq> 0 \<or> magic (m' y) \<noteq> MAGIC_COOKIE"
  proof (intro allI impI)
    fix y assume "y \<notin> set (remove1 b as)"
    then consider "y = b" | "y \<notin> set as" using sr by auto
    then show "free (m' y) \<noteq> 0 \<or> magic (m' y) \<noteq> MAGIC_COOKIE"
    proof cases
      case 1
      then have "m' y = m b" using ho ab na by auto
      with fb show ?thesis by simp
    next
      case 2
      then have "y \<noteq> a" "nn \<noteq> NULL \<longrightarrow> y \<noteq> nn" using a lb by auto
      then have "free (m' y) = free (m y) \<and> magic (m' y) = magic (m y)"
        using ho hn by (cases "y = nn") (auto simp: h Let_def)
      with stale 2 show ?thesis by simp
    qed
  qed
  have lv: "live_bytes m' y = live_bytes m y" if "y \<in> set as" for y
  proof -
    have "y \<noteq> NULL" using wf_local [OF w that] by simp
    then show ?thesis
      using ho hn fa by (cases "y = a"; cases "y = nn") (auto simp: live_bytes_def ha reseal_def)
  qed
  have "sum_list (map (live_bytes m') (remove1 b as)) = sum_list (map (live_bytes m) (remove1 b as))"
    using lv sr by (intro arg_cong [where f = sum_list] map_cong) auto
  moreover have "live_bytes m b = 0" using fb by (simp add: live_bytes_def)
  ultimately have 3: "allocated_bytes m' (remove1 b as) = allocated_bytes m as"
    using sum_list_map_remove1 [OF la(3), of "live_bytes m"] by (simp add: allocated_bytes_alt)
  have 4: "free (m' a) = free (m a)" by (simp add: ha reseal_def)
  have 5: "a \<in> set (remove1 b as)" using a ab sr by simp
  from 1 2 3 4 5 show ?thesis unfolding m'_def by simp
qed

lemma my_free_heap:
  assumes "p \<noteq> NULL" and "verify_header (heap s (p - HEADER_SIZE))"
    and "free (heap s (p - HEADER_SIZE)) = 0"
  shows "my_free s p =
     (let h = p - HEADER_SIZE; m2 = (heap s)(h := reseal ((heap s h)\<lparr>free := 1\<rparr>))
      in s\<lparr>heap := coalesce_prev (coalesce_next m2 h) h,
            total_allocated := total_allocated s - size_f (heap s h),
            total_free := total_free s + size_f (heap s h),
            allocation_count := allocation_count s - 1\<rparr>)"
  using assms by (simp add: my_free_def Let_def store_def reseal_def)

lemma my_free_wf:
  fixes s :: "32 allocator"
  assumes wf: "well_formed s as"
  shows "\<exists>as'. well_formed (my_free s p) as'"
proof (cases "p = NULL \<or> \<not> verify_header (heap s (p - HEADER_SIZE)) \<or>
              free (heap s (p - HEADER_SIZE)) \<noteq> 0")
  case True
  then have "my_free s p = s" by (auto simp: my_free_def Let_def)
  with wf show ?thesis by auto
next
  case False
  define h where "h = p - HEADER_SIZE"
  define m where "m = heap s"
  define base where "base = memory_pool s"
  define lim where "lim = unat base + 65536"
  define m2 where "m2 = m(h := reseal ((m h)\<lparr>free := 1\<rparr>))"
  define m3 where "m3 = coalesce_next m2 h"
  define m4 where "m4 = coalesce_prev m3 h"
  have w: "wf_from m NULL base as lim"
    and stale: "\<forall>a. a \<notin> set as \<longrightarrow> free (m a) \<noteq> 0 \<or> magic (m a) \<noteq> MAGIC_COOKIE"
    and ta: "unat (total_allocated s) = allocated_bytes m as"
    and tt: "total_allocated s + total_free s = POOL_SIZE - HEADER_SIZE"
    and vp: "valid_pool base"  and hd: "free_list_head s = base"
    using wf by (simp_all add: well_formed_def m_def base_def lim_def unat_32_consts)
  have lim: "lim \<le> 2 ^ 32" using wf_pool_bound [OF wf] by (simp add: lim_def base_def)
  have f0: "free (m h) = 0" and mg: "magic (m h) = MAGIC_COOKIE"
    using False by (auto simp: h_def m_def verify_header_def split: if_splits)
  with stale have hin: "h \<in> set as" by auto
  have d: "distinct as" using wf_distinct [OF w] .
  have s': "my_free s p =
      s\<lparr>heap := m4, total_allocated := total_allocated s - size_f (m h),
        total_free := total_free s + size_f (m h),
        allocation_count := allocation_count s - 1\<rparr>"
    using False my_free_heap [of p s]
    by (simp add: Let_def h_def m_def m2_def m3_def m4_def)
  have w2: "wf_from m2 NULL base as lim"
    by (intro wf_shrink [OF w]) (simp add: m2_def reseal_def)
  have st2: "\<forall>a. a \<notin> set as \<longrightarrow> free (m2 a) \<noteq> 0 \<or> magic (m2 a) \<noteq> MAGIC_COOKIE"
    using stale hin by (auto simp: m2_def)
  have "sum_list (map (live_bytes m2) as) + live_bytes m h =
        sum_list (map (live_bytes m) as) + live_bytes m2 h"
    using d hin by (intro sum_change_one) (auto simp: m2_def live_bytes_def)
  then have al2: "allocated_bytes m2 as + unat (size_f (m h)) = allocated_bytes m as"
    using f0 by (simp add: allocated_bytes_alt live_bytes_def m2_def reseal_def)
  have f2: "free (m2 h) \<noteq> 0" by (simp add: m2_def reseal_def)
  have "\<exists>as3. wf_from m3 NULL base as3 lim \<and>
          (\<forall>a. a \<notin> set as3 \<longrightarrow> free (m3 a) \<noteq> 0 \<or> magic (m3 a) \<noteq> MAGIC_COOKIE) \<and>
          allocated_bytes m3 as3 = allocated_bytes m2 as \<and> free (m3 h) \<noteq> 0 \<and> h \<in> set as3"
  proof (cases "next_f (m2 h) \<noteq> NULL \<and> free (m2 (next_f (m2 h))) \<noteq> 0 \<and>
                verify_header (m2 (next_f (m2 h)))")
    case True
    then have "m3 = absorb m2 h (next_f (m2 h))"
      by (simp add: m3_def coalesce_next_absorb)
    with absorb_ok [OF w2 lim st2 hin refl, of ] True f2 show ?thesis
      by (intro exI [of _ "remove1 (next_f (m2 h)) as"]) simp
  next
    case False
    then have "m3 = m2" by (auto simp: m3_def coalesce_next_absorb)
    with w2 st2 f2 hin show ?thesis by (intro exI [of _ as]) simp
  qed
  then obtain as3 where w3: "wf_from m3 NULL base as3 lim"
    and st3: "\<forall>a. a \<notin> set as3 \<longrightarrow> free (m3 a) \<noteq> 0 \<or> magic (m3 a) \<noteq> MAGIC_COOKIE"
    and al3: "allocated_bytes m3 as3 = allocated_bytes m2 as"
    and f3: "free (m3 h) \<noteq> 0" and h3: "h \<in> set as3"
    by blast
  have "\<exists>as4. wf_from m4 NULL base as4 lim \<and>
          (\<forall>a. a \<notin> set as4 \<longrightarrow> free (m4 a) \<noteq> 0 \<or> magic (m4 a) \<noteq> MAGIC_COOKIE) \<and>
          allocated_bytes m4 as4 = allocated_bytes m3 as3"
  proof (cases "prev (m3 h) \<noteq> NULL \<and> free (m3 (prev (m3 h))) \<noteq> 0 \<and>
                verify_header (m3 (prev (m3 h)))")
    case True
    then have e: "m4 = absorb m3 (prev (m3 h)) h"
      by (simp add: m4_def coalesce_prev_absorb)
    from wf_prev [OF w3 h3] True
    have pin: "prev (m3 h) \<in> set as3" "next_f (m3 (prev (m3 h))) = h" by auto
    have "h \<noteq> NULL" using wf_local [OF w3 h3] by simp
    with absorb_ok [OF w3 lim st3 pin] True f3 e show ?thesis
      by (intro exI [of _ "remove1 h as3"]) simp
  next
    case False
    then have "m4 = m3" by (auto simp: m4_def coalesce_prev_absorb)
    with w3 st3 show ?thesis by (intro exI [of _ as3]) simp
  qed
  then obtain as4 where w4: "wf_from m4 NULL base as4 lim"
    and st4: "\<forall>a. a \<notin> set as4 \<longrightarrow> free (m4 a) \<noteq> 0 \<or> magic (m4 a) \<noteq> MAGIC_COOKIE"
    and al4: "allocated_bytes m4 as4 = allocated_bytes m3 as3"
    by blast
  have "unat (size_f (m h)) \<le> unat (total_allocated s)"
    using al2 ta by simp
  then have "unat (total_allocated s - size_f (m h)) = unat (total_allocated s) - unat (size_f (m h))"
    by (simp add: unat_sub word_le_nat_alt)
  with al2 al3 al4 ta have 3: "unat (total_allocated s - size_f (m h)) = allocated_bytes m4 as4"
    by simp
  have "well_formed (my_free s p) as4"
    using w4 st4 3 tt vp hd
    by (simp add: s' well_formed_def base_def lim_def unat_32_consts)
  then show ?thesis by blast
qed

lemma init_wf:
  fixes base :: "32 word"
  assumes "valid_pool base"
  shows "well_formed (init_allocator (startup base)) [base]"
proof -
  have "heap (init_allocator (startup base)) =
          (\<lambda>_. zero_header)(base := reseal \<lparr>magic = MAGIC_COOKIE, size_f = POOL_SIZE - HEADER_SIZE,
             free = 1, next_f = NULL, prev = NULL, checksum = 0\<rparr>)"
    by (simp add: init_allocator_def startup_def store_def Let_def zero_header_def reseal_def
        cong: let_weak_cong)
  moreover have "memory_pool (init_allocator (startup base)) = base"
    "free_list_head (init_allocator (startup base)) = base"
    "total_allocated (init_allocator (startup base)) = 0"
    "total_free (init_allocator (startup base)) = POOL_SIZE - HEADER_SIZE"
    by (simp_all add: init_allocator_def startup_def store_def Let_def reseal_def)
  ultimately show ?thesis
    using assms
    by (simp add: well_formed_def valid_pool_def reseal_def block_span_def allocated_bytes_def
        zero_header_def MAGIC_COOKIE_def unat_32_consts)
      (simp add: config_defs)
qed

lemma malloc_wf:
  fixes s :: "32 allocator"
  assumes wf: "well_formed s as"
  shows "\<exists>p s' as'. my_malloc s n = Some (p, s') \<and> well_formed s' as'"
proof (cases "n = 0")
  case True
  with wf show ?thesis by (auto simp: my_malloc_def)
next
  case False
  have "path (heap s) (free_list_head s) as NULL"
    using wf wf_path [of "heap s" NULL "memory_pool s" as] by (auto simp: well_formed_def)
  from find_fit_chain [OF this, of "align_up n"] obtain r where
    r: "find_fit (heap s) (align_up n) (free_list_head s) = Some r"
       "\<forall>b. r = Fit b \<longrightarrow> b \<in> set as \<and> free (heap s b) \<noteq> 0 \<and> align_up n \<le> size_f (heap s b)"
    by blast
  show ?thesis
  proof (cases r)
    case (Fit b)
    with r have "b \<in> set as" "free (heap s b) \<noteq> 0" "align_up n \<le> size_f (heap s b)" by auto
    from take_block_wf [OF wf this] obtain as' where
      "well_formed (snd (take_block s b (align_up n))) as'" by blast
    moreover have "my_malloc s n = Some (take_block s b (align_up n))"
      using False r Fit by (simp add: my_malloc_def)
    ultimately show ?thesis by (metis prod.collapse)
  qed (use False r wf in \<open>auto simp: my_malloc_def\<close>)
qed

lemma run_wf:
  fixes s :: "32 allocator"
  shows "well_formed s as \<Longrightarrow> \<exists>s' as'. run s cs = Some s' \<and> well_formed s' as'"
proof (induction s cs arbitrary: as rule: run.induct)
  case (1 s)
  then show ?case by auto
next
  case (2 s n cs)
  from malloc_wf [OF "2.prems", of n] obtain p s' as' where
    m: "my_malloc s n = Some (p, s')" "well_formed s' as'" by blast
  from "2.IH" [OF m(1) refl m(2)] m(1) show ?case by simp
next
  case (3 s p cs)
  from my_free_wf [OF "3.prems", of p] obtain as' where "well_formed (my_free s p) as'" by blast
  from "3.IH" [OF this] show ?case by simp
qed

lemma chain_unique: "chain m p as \<Longrightarrow> chain m p bs \<Longrightarrow> as = bs"
  unfolding chain_def
proof (induction as arbitrary: p bs)
  case Nil
  then show ?case by (cases bs) auto
next
  case (Cons a as)
  then show ?case by (cases bs) auto
qed

lemma foldr_max_le_sum: "foldr max xs (0::nat) \<le> sum_list xs"
  by (induction xs) auto

lemma tally_nat:
  fixes m :: "32 heap"
  assumes "unat f + sum_list (map (\<lambda>a. unat (size_f (m a))) (filter (\<lambda>a. free (m a) \<noteq> 0) xs)) < 2 ^ 32"
  shows "\<exists>k' l' f'. tally m xs (k, l, f) = (k', l', f') \<and>
           k' = k + int (length (filter (\<lambda>a. free (m a) \<noteq> 0) xs)) \<and>
           unat l' = max (unat l) (foldr max (map (\<lambda>a. unat (size_f (m a))) (filter (\<lambda>a. free (m a) \<noteq> 0) xs)) 0) \<and>
           unat f' = unat f + sum_list (map (\<lambda>a. unat (size_f (m a))) (filter (\<lambda>a. free (m a) \<noteq> 0) xs))"
  using assms
proof (induction xs arbitrary: k l f)
  case Nil
  then show ?case by simp
next
  case (Cons x xs)
  show ?case
  proof (cases "free (m x) = 0")
    case True
    with Cons.IH [of f k l] Cons.prems show ?thesis by simp
  next
    case False
    have u: "unat (f + size_f (m x)) = unat f + unat (size_f (m x))"
      using Cons.prems False by (simp add: unat_add_lem [THEN iffD1])
    have mx: "unat (max l (size_f (m x))) = max (unat l) (unat (size_f (m x)))"
      by (simp add: max_def word_le_nat_alt)
    from Cons.IH [of "f + size_f (m x)" "k + 1" "max l (size_f (m x))"] Cons.prems False u
    obtain k' l' f' where
      t: "tally m xs (k + 1, max l (size_f (m x)), f + size_f (m x)) = (k', l', f')"
        "k' = k + 1 + int (length (filter (\<lambda>a. free (m a) \<noteq> 0) xs))"
        "unat l' = max (unat (max l (size_f (m x)))) (foldr max (map (\<lambda>a. unat (size_f (m a))) (filter (\<lambda>a. free (m a) \<noteq> 0) xs)) 0)"
        "unat f' = unat (f + size_f (m x)) + sum_list (map (\<lambda>a. unat (size_f (m a))) (filter (\<lambda>a. free (m a) \<noteq> 0) xs))"
      by auto
    with False u mx show ?thesis by (simp add: max.assoc)
  qed
qed

lemma score_of_nat:
  fixes l f :: "32 word"
  assumes "unat l \<le> unat f" and "unat f \<le> 65536"
  shows "score_of k l f =
           (if k \<le> 1 \<or> unat f = 0 then 0 else 100 - int (100 * unat l div unat f))"
proof (cases "k \<le> 1 \<or> unat f = 0")
  case True
  then show ?thesis by (auto simp: score_of_def unat_eq_0 word_less_nat_alt)
next
  case False
  then have f0: "0 < f" "0 < unat f" "1 < k" by (auto simp: word_less_nat_alt)
  have "unat l * 100 < 2 ^ 32" using assms by simp
  then have 1: "unat (l * 100) = unat l * 100"
    by (simp add: unat_mult_lem [THEN iffD1])
  then have 2: "unat (l * 100 div f) = unat l * 100 div unat f"
    by (simp add: unat_div)
  have "unat l * 100 div unat f \<le> 100"
    using assms f0
    by (metis div_le_mono div_mult_self_is_m mult.commute mult_le_mono1)
  with 2 have 3: "unat (l * 100 div f) \<le> 100" by simp
  then have "l * 100 div f \<le> 100" by (simp add: word_le_nat_alt)
  then have 4: "unat (100 - l * 100 div f) = 100 - unat (l * 100 div f)"
    by (simp add: unat_sub)
  have "sint (100 - l * 100 div f) = int (unat (100 - l * 100 div f))"
  proof -
    have u: "uint (100 - l * 100 div f) = int (unat (100 - l * 100 div f))"
      by simp
    have "unat (100 - l * 100 div f) < 2 ^ 31" using 4 by simp
    then have "int (unat (100 - l * 100 div f)) < 2 ^ 31"
      by (metis of_nat_less_iff of_nat_numeral of_nat_power)
    then have lt: "uint (100 - l * 100 div f) < 2 ^ 31"
      by (simp only: u)
    have "- (2 ^ 31) \<le> (0 :: int)" "0 \<le> uint (100 - l * 100 div f)"
      by simp_all
    then have ge: "- (2 ^ 31) \<le> uint (100 - l * 100 div f)"
      by (rule order_trans)
    have "signed_take_bit 31 (uint (100 - l * 100 div f)) = uint (100 - l * 100 div f)"
      using ge lt by (rule signed_take_bit_int_eq_self)
    then show ?thesis
      unfolding u [symmetric] by (simp add: sint_uint)
  qed
  with 2 3 4 f0 show ?thesis
    by (simp add: score_of_def mult.commute of_nat_diff)
qed

lemma reachable_wf:
  fixes base :: "32 word"
  assumes "valid_pool base"
  shows "\<exists>s as. run (init_allocator (startup base)) cs = Some s \<and> well_formed s as"
  using run_wf [OF init_wf [OF assms]] .

lemma wf_chain:
  "well_formed s as \<Longrightarrow> chain (heap s) (free_list_head s) as"
  using wf_path [of "heap s" NULL "memory_pool s" as] by (auto simp: well_formed_def chain_def)

text \<open>The list is in address order.\<close>

lemma wf_sorted:
  "wf_from (m :: 32 heap) p c as lim \<Longrightarrow> sorted_wrt (\<lambda>a b. unat a < unat b) as"
proof (induction as arbitrary: p c)
  case Nil
  then show ?case by simp
next
  case (Cons x xs)
  have "unat x < unat a" if "a \<in> set xs" for a
    using wf_after [OF Cons.prems that] span_pos [of m x] by simp
  moreover have "wf_from m x (next_f (m x)) xs lim" using Cons.prems by simp
  ultimately show ?case using Cons.IH by auto
qed

lemma reachable_address_order:
  fixes base :: "32 word"
  assumes "valid_pool base" and "run (init_allocator (startup base)) cs = Some s"
  shows "\<exists>as. chain (heap s) (free_list_head s) as \<and> sorted_wrt (\<lambda>a b. unat a < unat b) as"
proof -
  from reachable_wf [OF assms(1), of cs] assms(2) obtain as where wf: "well_formed s as"
    by auto
  then have "wf_from (heap s) NULL (memory_pool s) as (unat (memory_pool s) + unat (POOL_SIZE :: 32 word))"
    by (simp add: well_formed_def)
  from wf_sorted [OF this] wf_chain [OF wf] show ?thesis by blast
qed

text \<open>
  A request above \<open>P - H\<close> whose rounding does not wrap around is refused, and the state
  stays as it is.
\<close>

lemma oversize_rejected:
  fixes base :: "32 word"
  assumes "valid_pool base" and "run (init_allocator (startup base)) cs = Some s"
    and "unat (POOL_SIZE - HEADER_SIZE :: 32 word) < unat n" and "unat n + 7 < 2 ^ 32"
  shows "my_malloc s n = Some (NULL, s)"
proof -
  from reachable_wf [OF assms(1), of cs] assms(2) obtain as where wf: "well_formed s as"
    by auto
  have c: "path (heap s) (free_list_head s) as NULL"
    using wf_chain [OF wf] by (simp add: chain_def)
  from find_fit_chain [OF c, of "align_up n"] obtain r where
    r: "find_fit (heap s) (align_up n) (free_list_head s) = Some r"
       "\<forall>b. r = Fit b \<longrightarrow> b \<in> set as \<and> free (heap s b) \<noteq> 0 \<and> align_up n \<le> size_f (heap s b)"
    by blast
  have big: "65512 < unat (align_up n)"
  proof -
    have "unat (align_up n) = (unat n + 7) div 8 * 8"
      using assms(4) by (intro align_up_unat) simp
    moreover have "unat n \<le> (unat n + 7) div 8 * 8" by presburger
    moreover have "65512 < unat n" using assms(3) by (simp add: config_defs)
    ultimately show ?thesis by simp
  qed
  have "r \<noteq> Fit b" for b
  proof
    assume "r = Fit b"
    with r have b: "b \<in> set as" "align_up n \<le> size_f (heap s b)" by auto
    have "block_span (heap s) b \<le> sum_list (map (block_span (heap s)) as)"
      using b(1) by (simp add: member_le_sum_list)
    with wf_pool_bound [OF wf] have "unat (size_f (heap s b)) \<le> 65512"
      by (simp add: block_span_def unat_32_consts)
    with b(2) big show False by (simp add: word_le_nat_alt)
  qed
  with r show ?thesis
    by (cases r) (auto simp: my_malloc_def Let_def)
qed

section \<open>Claims about every call sequence\<close>

text \<open>
  The accounting identity of the spec after the first allocation of \<^verbatim>\<open>demo_basic\<close>: the
  list has two blocks, the counters hold 128 and 65384, and with the two headers of 24 bytes
  the sum is 65560, not \<open>P = 65536\<close>. A split takes the new header out of the free
  payload, and \<open>my_malloc\<close> subtracts only the payload it hands out.
\<close>

theorem accounting_counterexample:
  "run fresh [Allocate 128] = Some demo1 \<and>
   chain (heap demo1) (free_list_head demo1) [0x100000, 0x100098] \<and>
   unat (total_allocated demo1) + unat (total_free demo1) +
     unat (HEADER_SIZE :: 32 word) * length [0x100000 :: 32 word, 0x100098] = 65560 \<and>
   unat (POOL_SIZE :: 32 word) = 65536 \<and>
   \<not> accounting demo1 [0x100000, 0x100098]"
  by (simp add: malloc_demo1) (simp add: demo1_def accounting_def observe_defs)

text \<open>
  C4 (accounting identity), as the code has it. For every finite sequence of \<open>my_malloc\<close>
  and \<open>my_free\<close> calls on a freshly initialised allocator (ILP32), every call returns, and in
  the state reached the list from the head ends at the null pointer,
  \<open>total_allocated + total_free = P - H\<close> (the one header of the initial block; the headers
  of blocks made by later splits are not subtracted), and \<open>total_allocated\<close> is the sum of
  the sizes of the blocks on the list with \<open>free = 0\<close>.
\<close>

theorem accounting_as_coded:
  fixes base :: "32 word"
  assumes "valid_pool base"
  shows "\<exists>s as. run (init_allocator (startup base)) cs = Some s \<and>
           chain (heap s) (free_list_head s) as \<and>
           unat (total_allocated s) + unat (total_free s) =
             unat (POOL_SIZE :: 32 word) - unat (HEADER_SIZE :: 32 word) \<and>
           unat (total_allocated s) = allocated_bytes (heap s) as"
proof -
  from reachable_wf [OF assms] obtain s as where
    r: "run (init_allocator (startup base)) cs = Some s" and wf: "well_formed s as"
    by blast
  have b: "sum_list (map (block_span (heap s)) as) \<le> 65536" "as \<noteq> []"
    using wf_pool_bound [OF wf] by simp_all
  have "24 * length as + allocated_bytes (heap s) as \<le> sum_list (map (block_span (heap s)) as)"
    unfolding allocated_bytes_alt
    by (induction as) (simp_all add: block_span_def live_bytes_def unat_32_consts)
  moreover have "24 \<le> 24 * length as" using b by (cases as) simp_all
  ultimately have le: "allocated_bytes (heap s) as \<le> 65512" using b by linarith
  from wf have ta: "unat (total_allocated s) = allocated_bytes (heap s) as"
    and tt: "total_allocated s + total_free s = POOL_SIZE - HEADER_SIZE"
    by (simp_all add: well_formed_def)
  from tt have "total_free s = 65512 - total_allocated s"
    by (simp add: config_defs algebra_simps)
  moreover have "total_allocated s \<le> 65512"
    using le ta by (simp add: word_le_nat_alt)
  ultimately have "unat (total_free s) = 65512 - unat (total_allocated s)"
    by (simp add: unat_sub)
  with le ta have "unat (total_allocated s) + unat (total_free s) = 65512" by simp
  with r ta wf_chain [OF wf] show ?thesis
    by (auto simp: unat_32_consts)
qed

theorem accounting_as_coded_witness:
  "valid_pool (0x100000 :: 32 word) \<and>
   run (init_allocator (startup 0x100000)) [Allocate 128] = Some demo1 \<and>
   chain (heap demo1) (free_list_head demo1) [0x100000, 0x100098] \<and>
   unat (total_allocated demo1) + unat (total_free demo1) = 65512 \<and>
   unat (total_allocated demo1) = allocated_bytes (heap demo1) [0x100000, 0x100098] \<and>
   allocated_bytes (heap demo1) [0x100000, 0x100098] = 128"
proof -
  have v: "valid_pool (0x100000 :: 32 word)"
    by (simp add: valid_pool_def config_defs)
  have r: "run (init_allocator (startup 0x100000)) [Allocate 128] = Some demo1"
    using malloc_demo1 by (simp add: fresh_def)
  have c: "chain (heap demo1) (free_list_head demo1) [0x100000, 0x100098]"
    by (simp add: demo1_def observe_defs)
  from accounting_as_coded [OF v, of "[Allocate 128]"] r obtain as where
    a: "chain (heap demo1) (free_list_head demo1) as"
       "unat (total_allocated demo1) + unat (total_free demo1) =
          unat (POOL_SIZE :: 32 word) - unat (HEADER_SIZE :: 32 word)"
       "unat (total_allocated demo1) = allocated_bytes (heap demo1) as"
    by auto
  have "as = [0x100000, 0x100098]" using chain_unique [OF a(1) c] .
  with a v r c show ?thesis
    by (simp add: unat_32_consts) (simp add: demo1_def allocated_bytes_def)
qed

text \<open>
  C9 (fragmentation metric). In every state that calls reach from a freshly initialised
  allocator (ILP32), \<open>calculate_fragmentation\<close> returns and assigns the score of the free
  blocks it counts: 0 when their number \<open>k\<close> is at most 1 or their total \<open>F\<close> is 0, otherwise
  \<open>100 - \<lfloor>100 L / F\<rfloor>\<close> with \<open>L\<close> the largest of them; no step of the \<^verbatim>\<open>size_t\<close>
  arithmetic wraps around, and the score lies between 0 and 100. The blocks counted are
  those that pass \<open>verify_header\<close> (see C10).
\<close>

theorem fragmentation_formula:
  fixes base :: "32 word"
  assumes "valid_pool base" and "run (init_allocator (startup base)) cs = Some s"
  shows "\<exists>as. chain (heap s) (free_list_head s) as \<and>
           calculate_fragmentation s =
             Some (s\<lparr>fragmentation_score := fragmentation_of (free_sizes (heap s) as)\<rparr>) \<and>
           0 \<le> fragmentation_of (free_sizes (heap s) as) \<and>
           fragmentation_of (free_sizes (heap s) as) \<le> 100"
proof -
  from reachable_wf [OF assms(1), of cs] assms(2) obtain as where wf: "well_formed s as"
    by auto
  define m where "m = heap s"
  define xs where "xs = filter (\<lambda>a. verify_header (m a)) as"
  define sizes where "sizes = free_sizes m as"
  have c: "chain m (free_list_head s) as" using wf_chain [OF wf] by (simp add: m_def)
  have sz: "sizes = map (\<lambda>a. unat (size_f (m a))) (filter (\<lambda>a. free (m a) \<noteq> 0) xs)"
    by (simp add: sizes_def free_sizes_def xs_def conj_commute)
  have "sum_list sizes \<le> sum_list (map (block_span m) as)"
    unfolding sizes_def free_sizes_def
    by (induction as) (simp_all add: block_span_def)
  with wf_pool_bound [OF wf] have F: "sum_list sizes \<le> 65536" by (simp add: m_def)
  then have "unat (0 :: 32 word) + sum_list (map (\<lambda>a. unat (size_f (m a))) (filter (\<lambda>a. free (m a) \<noteq> 0) xs)) < 2 ^ 32"
    by (simp add: sz)
  from tally_nat [OF this, of 0 0] obtain k l f where
    t: "tally m xs (0, 0, 0) = (k, l, f)" "k = int (length sizes)"
       "unat l = foldr max sizes 0" "unat f = sum_list sizes"
    by (auto simp: sz)
  have "unat l \<le> unat f" using t foldr_max_le_sum [of sizes] by simp
  from score_of_nat [OF this, of k] F t
  have "score_of k l f =
          (if k \<le> 1 \<or> unat f = 0 then 0 else 100 - int (100 * unat l div unat f))"
    by simp
  also have "\<dots> = fragmentation_of sizes"
    unfolding fragmentation_of_def Let_def t(2,3,4) by simp
  finally have sc: "score_of k l f = fragmentation_of sizes" .
  have "calculate_fragmentation s = Some (s\<lparr>fragmentation_score := score_of k l f\<rparr>)"
    using calculate_fragmentation_chain [of s as] c t by (simp add: m_def xs_def chain_def)
  moreover have "0 \<le> fragmentation_of sizes \<and> fragmentation_of sizes \<le> 100"
  proof -
    have "100 * foldr max sizes 0 div sum_list sizes \<le> 100"
    proof (cases "sum_list sizes = 0")
      case True
      then show ?thesis by (simp del: sum_list_eq_0_iff)
    next
      case False
      have "100 * foldr max sizes 0 div sum_list sizes \<le> 100 * sum_list sizes div sum_list sizes"
        by (intro div_le_mono mult_le_mono2 foldr_max_le_sum)
      also have "\<dots> = 100" using False by (simp del: sum_list_eq_0_iff)
      finally show ?thesis .
    qed
    then show ?thesis by (simp add: fragmentation_of_def Let_def)
  qed
  ultimately show ?thesis
    using c sc by (auto simp: m_def sizes_def)
qed

theorem fragmentation_formula_witness:
  "valid_pool (0x100000 :: 32 word) \<and>
   run (init_allocator (startup 0x100000))
     [Allocate 128, Allocate 256, Allocate 64, Release 0x1000B0] = Some demo4 \<and>
   chain (heap demo4) (free_list_head demo4) [0x100000, 0x100098, 0x1001B0, 0x100208] \<and>
   free_sizes (heap demo4) [0x100000, 0x100098, 0x1001B0, 0x100208] = [256, 64992] \<and>
   fragmentation_of [256, 64992] = 1 \<and>
   calculate_fragmentation demo4 = Some (demo4\<lparr>fragmentation_score := 1\<rparr>)"
proof -
  have v: "valid_pool (0x100000 :: 32 word)"
    by (simp add: valid_pool_def config_defs)
  have r: "run (init_allocator (startup 0x100000))
     [Allocate 128, Allocate 256, Allocate 64, Release 0x1000B0] = Some demo4"
    using run_append [OF run_demo3, of "[Release 0x1000B0]"]
    by (simp add: free_demo4 fresh_def)
  have c: "chain (heap demo4) (free_list_head demo4) [0x100000, 0x100098, 0x1001B0, 0x100208]"
    by (simp add: demo4_def observe_defs)
  have f: "free_sizes (heap demo4) [0x100000, 0x100098, 0x1001B0, 0x100208] = [256, 64992]"
    by (simp add: demo4_def free_sizes_def observe_defs)
  have g: "fragmentation_of [256, 64992] = 1"
    by (simp add: fragmentation_of_def)
  from fragmentation_formula [OF v r] obtain as where
    a: "chain (heap demo4) (free_list_head demo4) as"
       "calculate_fragmentation demo4 =
          Some (demo4\<lparr>fragmentation_score := fragmentation_of (free_sizes (heap demo4) as)\<rparr>)"
    by auto
  have "as = [0x100000, 0x100098, 0x1001B0, 0x100208]" using chain_unique [OF a(1) c] .
  with a v r c f g show ?thesis by simp
qed

end
